theory Spec2Isabelle
  imports Complex_Main
begin

section \<open>Data model\<close>

text \<open>
  The bot keeps one process-wide object \<^verbatim>\<open>userData\<close> of the shape
  \<^verbatim>\<open>{ chatId: { emails: [], seenEmails: {} } }\<close>. A JavaScript object used as a dictionary is
  a partial map from its own keys; \<^verbatim>\<open>seenEmails[email]\<close> is an object from message ids to
  \<^verbatim>\<open>true\<close>, read through JavaScript truthiness (\<^verbatim>\<open>!obj[id]\<close>), so a mark is a boolean.
  Chat ids are Telegram's integers. Execution is sequential: one handler or poll cycle runs
  to its end before the next starts.
\<close>

type_synonym chatId = int
type_synonym address = string
type_synonym msgId = string

record mail =
  mail_id :: msgId
  mail_from :: "string option"
  subject :: "string option"
  preview :: "string option"
  hasAttachments :: bool

record attachment =
  filename :: string
  att_size :: "nat option"
  url :: string

record user =
  emails :: "address list"
  seenEmails :: "address \<rightharpoonup> (msgId \<rightharpoonup> bool)"

type_synonym store = "chatId \<rightharpoonup> user"

text \<open>
  A lookup \<^verbatim>\<open>obj[key]\<close> that finds no own key goes on along the prototype chain. The objects
  of \<^verbatim>\<open>userData\<close>, made by \<^verbatim>\<open>{}\<close> or by \<^verbatim>\<open>JSON.parse\<close>, inherit the properties of
  \<^verbatim>\<open>Object.prototype\<close>: under these twelve names a lookup without an own key finds a
  built-in object of the runtime, which is truthy (\<^verbatim>\<open>__proto__\<close> gives \<^verbatim>\<open>Object.prototype\<close>
  itself, each other name a function). The decimal key of a chat id is none of them.
\<close>

definition inherited :: "string \<Rightarrow> bool" where
  "inherited k =
     (k \<in> set [''constructor'', ''toString'', ''toLocaleString'', ''valueOf'', ''hasOwnProperty'',
                ''isPrototypeOf'', ''propertyIsEnumerable'', ''__proto__'', ''__defineGetter__'',
                ''__defineSetter__'', ''__lookupGetter__'', ''__lookupSetter__''])"

text \<open>
  The truthiness of \<^verbatim>\<open>marks[id]\<close> for an object \<open>marks\<close> of \<^verbatim>\<open>seenEmails\<close>: the own mark when
  there is one, and otherwise the inherited property, if \<open>id\<close> names one.
\<close>

definition truthy :: "(msgId \<rightharpoonup> bool) \<Rightarrow> msgId \<Rightarrow> bool" where
  "truthy marks i = (case marks i of Some b \<Rightarrow> b | None \<Rightarrow> inherited i)"

text \<open>
  What an HTTP call to the mail provider gives: the request throws (\<open>Failed\<close>), the body is
  \<^verbatim>\<open>{success: true, result: [...]}\<close> (\<open>Envelope\<close>), the body is an array (\<open>Bare\<close>), or the
  body is any other non-iterable value (\<open>Other\<close>).
\<close>

datatype 'a response = Failed | Envelope "'a list" | Bare "'a list" | Other

text \<open>
  The file \<^verbatim>\<open>bot_data.json\<close>: missing, a snapshot written by \<^verbatim>\<open>saveData\<close>, or unparsable.
  \<^verbatim>\<open>JSON.stringify\<close> writes the own keys of \<^verbatim>\<open>userData\<close> and \<^verbatim>\<open>JSON.parse\<close> reads them back
  without loss, so a complete file is modelled by the snapshot it holds.
\<close>

datatype datafile = Absent | Stored store | Corrupt

text \<open>
  \<^verbatim>\<open>fs.writeFileSync\<close> opens the file for writing, which empties it, and then writes the text.
  The write completes; or it fails before the file is opened, and the file stays as it was
  (\<open>Refused\<close>); or it stops after that, because the write fails part-way or the process is
  stopped during it (\<open>Torn\<close>), and leaves a proper prefix of the text, which does not parse.
\<close>

datatype writeResult = Complete | Refused | Torn

text \<open>
  The texts the bot sends, one constructor per template of the source with the values the
  template interpolates.
\<close>

datatype message =
    NewEmail address mail
  | AttachmentInfo attachment
  | NoDomains
  | Created address
  | UsageAdd
  | NowTracking address
  | AlreadyTracking address
  | NoTracked
  | UsageDelete
  | Stopped address
  | NotFound address
  | UsageImport
  | InvalidImport
  | Imported nat nat
  | ImportedCount nat
  | TrackingStarted address
  | Removed address

datatype logline =
    SendError
  | SaveError
  | LoadError
  | DomainsError
  | FetchError address
  | AttachmentsError address
  | CheckError address

text \<open>
  Everything the process does that can be observed, oldest first: the in-memory write
  \<^verbatim>\<open>seenEmails[email][id] = true\<close>, a send attempt with its outcome, a \<^verbatim>\<open>saveData\<close> attempt
  with the snapshot and its outcome, a \<^verbatim>\<open>console.error\<close> line, and the point where a poll
  cycle leaves what the model describes (\<open>Outside\<close>, see \<open>processMail\<close>).
\<close>

datatype event =
    Marked chatId address msgId
  | Sent chatId message bool
  | Saved store writeResult
  | Logged logline
  | Outside chatId address msgId

text \<open>
  The state of the process. Besides \<^verbatim>\<open>userData\<close> and the file it holds the marks that the
  poller has put on built-in functions: \<open>builtinMarks s a i\<close> says that property \<open>i\<close> of the
  function that the inherited name \<open>a\<close> resolves to has been set to \<^verbatim>\<open>true\<close>. There is one
  such function per name for the whole process, and a new process starts with none marked.
\<close>

record bot =
  userData :: store
  dataFile :: datafile
  builtinMarks :: "address \<Rightarrow> msgId \<Rightarrow> bool"
  history :: "event list"

text \<open>
  The world outside the code: the provider's answers, whether the n-th send attempt
  succeeds, how the n-th file write ends, the two draws of \<^verbatim>\<open>Math.random()\<close> that
  \<^verbatim>\<open>generateRandomEmail\<close> makes (the first as the string \<^verbatim>\<open>toString(36)\<close> renders, the second
  as a number of the unit interval), and the properties the runtime gives its built-in
  functions: \<open>engineProps a i\<close> says that the function the inherited name \<open>a\<close> resolves to
  has, by itself or by inheritance, a property named \<open>i\<close> before the poller writes any
  (\<^verbatim>\<open>length\<close>, \<^verbatim>\<open>name\<close>, \<^verbatim>\<open>call\<close>, ...).
\<close>

record env =
  domainsResponse :: "string response"
  emailsResponse :: "address \<Rightarrow> mail response"
  attachmentsResponse :: "address \<Rightarrow> attachment response"
  delivered :: "nat \<Rightarrow> bool"
  written :: "nat \<Rightarrow> writeResult"
  engineProps :: "address \<Rightarrow> msgId \<Rightarrow> bool"
  random36 :: string
  randomUnit :: rat

section \<open>Storage and Telegram helpers (bot.js)\<close>

fun isSent :: "event \<Rightarrow> bool" where
  "isSent (Sent c t ok) = True"
| "isSent e = False"

fun isSaved :: "event \<Rightarrow> bool" where
  "isSaved (Saved d ok) = True"
| "isSaved e = False"

definition sendCount :: "bot \<Rightarrow> nat" where
  "sendCount s = length (filter isSent (history s))"

definition saveCount :: "bot \<Rightarrow> nat" where
  "saveCount s = length (filter isSaved (history s))"

definition logError :: "logline \<Rightarrow> bot \<Rightarrow> bot" where
  "logError l s = s\<lparr>history := history s @ [Logged l]\<rparr>"

text \<open>
  \<^verbatim>\<open>saveData\<close>: write the whole of \<^verbatim>\<open>userData\<close> over the file, in place. A write that does not
  complete is logged; it leaves the file as it was when it failed before the file was
  opened, and unparsable otherwise.
\<close>

definition saveData :: "env \<Rightarrow> bot \<Rightarrow> bot" where
  "saveData w s =
     (case written w (saveCount s) of
        Complete \<Rightarrow>
          s\<lparr>dataFile := Stored (userData s), history := history s @ [Saved (userData s) Complete]\<rparr>
      | Refused \<Rightarrow>
          s\<lparr>history := history s @ [Saved (userData s) Refused, Logged SaveError]\<rparr>
      | Torn \<Rightarrow>
          s\<lparr>dataFile := Corrupt, history := history s @ [Saved (userData s) Torn, Logged SaveError]\<rparr>)"

text \<open>\<^verbatim>\<open>sendTelegram\<close>: the rejection of \<^verbatim>\<open>bot.sendMessage\<close> is caught and logged.\<close>

definition sendTelegram :: "env \<Rightarrow> chatId \<Rightarrow> message \<Rightarrow> bot \<Rightarrow> bot" where
  "sendTelegram w c t s =
     (if delivered w (sendCount s)
      then s\<lparr>history := history s @ [Sent c t True]\<rparr>
      else s\<lparr>history := history s @ [Sent c t False, Logged SendError]\<rparr>)"

definition ensureUser :: "chatId \<Rightarrow> bot \<Rightarrow> bot" where
  "ensureUser c s =
     (case userData s c of
        None \<Rightarrow> s\<lparr>userData := (userData s)(c \<mapsto> \<lparr>emails = [], seenEmails = Map.empty\<rparr>)\<rparr>
      | Some u \<Rightarrow> s)"

section \<open>Provider helpers (bot.js)\<close>

definition normalise :: "'a response \<Rightarrow> 'a list" where
  "normalise r = (case r of Envelope xs \<Rightarrow> xs | Bare xs \<Rightarrow> xs | Other \<Rightarrow> [] | Failed \<Rightarrow> [])"

definition fetchEmailsForAddress :: "env \<Rightarrow> address \<Rightarrow> bot \<Rightarrow> mail list \<times> bot" where
  "fetchEmailsForAddress w a s =
     (case emailsResponse w a of
        Failed \<Rightarrow> ([], logError (FetchError a) s)
      | r \<Rightarrow> (normalise r, s))"

definition fetchAttachmentsForAddress :: "env \<Rightarrow> address \<Rightarrow> bot \<Rightarrow> attachment list \<times> bot" where
  "fetchAttachmentsForAddress w a s =
     (case attachmentsResponse w a of
        Failed \<Rightarrow> ([], logError (AttachmentsError a) s)
      | r \<Rightarrow> (normalise r, s))"

section \<open>The inbox poller (bot.js)\<close>

text \<open>
  Reading a property of \<^verbatim>\<open>undefined\<close> throws a TypeError, which the \<^verbatim>\<open>try\<close> of
  \<^verbatim>\<open>checkEmailInbox\<close> catches: a step of the cycle either completes or throws, and in both
  cases the mutations made so far stay. A third outcome, \<open>Beyond\<close>, ends the description of a
  cycle that reads a property of a built-in object whose value the model does not hold (see
  \<open>processMail\<close>): the state it carries is the state up to that read, and what the process
  does from there on is not described.
\<close>

datatype outcome = Done bot | Threw bot | Beyond bot

text \<open>
  \<^verbatim>\<open>if (!userData[chatId].seenEmails[email]) userData[chatId].seenEmails[email] = {}\<close>: without an
  own entry, an address that is an inherited name finds the built-in object, which is truthy,
  and no entry is made.
\<close>

definition ensureSeen :: "chatId \<Rightarrow> address \<Rightarrow> bot \<Rightarrow> outcome" where
  "ensureSeen c a s =
     (case userData s c of
        None \<Rightarrow> Threw s
      | Some u \<Rightarrow>
          (case seenEmails u a of
             None \<Rightarrow>
               if inherited a then Done s
               else Done (s\<lparr>userData := (userData s)(c \<mapsto> u\<lparr>seenEmails := (seenEmails u)(a \<mapsto> Map.empty)\<rparr>)\<rparr>)
           | Some marks \<Rightarrow> Done s))"

text \<open>\<^verbatim>\<open>userData[chatId].seenEmails[email][mail.id] = true\<close>, for a user \<open>u\<close> with marks \<open>marks\<close>.\<close>

definition markSeen :: "chatId \<Rightarrow> address \<Rightarrow> msgId \<Rightarrow> user \<Rightarrow> (msgId \<rightharpoonup> bool) \<Rightarrow> bot \<Rightarrow> bot" where
  "markSeen c a i u marks s =
     s\<lparr>userData := (userData s)(c \<mapsto> u\<lparr>seenEmails := (seenEmails u)(a \<mapsto> marks(i \<mapsto> True))\<rparr>),
       history := history s @ [Marked c a i]\<rparr>"

definition sendAttachments :: "env \<Rightarrow> chatId \<Rightarrow> address \<Rightarrow> bot \<Rightarrow> bot" where
  "sendAttachments w c a s =
     (case fetchAttachmentsForAddress w a s of
        (atts, s') \<Rightarrow> foldl (\<lambda>st att. sendTelegram w c (AttachmentInfo att) st) s' atts)"

text \<open>
  The same statement when \<^verbatim>\<open>seenEmails[email]\<close> is the built-in function of an inherited name:
  the write makes a property of that function.
\<close>

definition markBuiltin :: "chatId \<Rightarrow> address \<Rightarrow> msgId \<Rightarrow> bot \<Rightarrow> bot" where
  "markBuiltin c a i s =
     s\<lparr>builtinMarks := (builtinMarks s)(a := (builtinMarks s a)(i := True)),
       history := history s @ [Marked c a i]\<rparr>"

definition outside :: "chatId \<Rightarrow> address \<Rightarrow> msgId \<Rightarrow> bot \<Rightarrow> bot" where
  "outside c a i s = s\<lparr>history := history s @ [Outside c a i]\<rparr>"

text \<open>What the loop body does for a new mail after the mark: notify, attachments, save.\<close>

definition notifyNew :: "env \<Rightarrow> chatId \<Rightarrow> address \<Rightarrow> mail \<Rightarrow> bot \<Rightarrow> bot" where
  "notifyNew w c a m s1 =
     (let s2 = sendTelegram w c (NewEmail a m) s1;
          s3 = (if hasAttachments m then sendAttachments w c a s2 else s2)
      in saveData w s3)"

text \<open>
  The body of the loop over the fetched mails. With an own entry for the address, the test
  and the mark are on that entry. Without one, for an address that is an inherited name, they
  are on the built-in object. When that object is a function and the runtime gives it no
  property under the id, the test reads the mark the poller may have put there, and the mark
  makes a property of the function, which is not part of \<^verbatim>\<open>userData\<close>. The model stops
  (\<open>Beyond\<close>) when the runtime gives the function a property under the id, whose value and
  writability are the runtime's, and for the address \<^verbatim>\<open>__proto__\<close>, where the write would be
  to \<^verbatim>\<open>Object.prototype\<close>, from which every object of the process inherits.
\<close>

definition processMail :: "env \<Rightarrow> chatId \<Rightarrow> address \<Rightarrow> bot \<Rightarrow> mail \<Rightarrow> outcome" where
  "processMail w c a s m =
     (case userData s c of
        None \<Rightarrow> Threw s
      | Some u \<Rightarrow>
          (case seenEmails u a of
             Some marks \<Rightarrow>
               if truthy marks (mail_id m) then Done s
               else Done (notifyNew w c a m (markSeen c a (mail_id m) u marks s))
           | None \<Rightarrow>
               if \<not> inherited a then Threw s
               else if a = ''__proto__'' \<or> engineProps w a (mail_id m)
               then Beyond (outside c a (mail_id m) s)
               else if builtinMarks s a (mail_id m) then Done s
               else Done (notifyNew w c a m (markBuiltin c a (mail_id m) s))))"

fun mailLoop :: "env \<Rightarrow> chatId \<Rightarrow> address \<Rightarrow> bot \<Rightarrow> mail list \<Rightarrow> outcome" where
  "mailLoop w c a s [] = Done s"
| "mailLoop w c a s (m # ms) =
     (case processMail w c a s m of
        Done s' \<Rightarrow> mailLoop w c a s' ms
      | Threw s' \<Rightarrow> Threw s'
      | Beyond s' \<Rightarrow> Beyond s')"

text \<open>The \<^verbatim>\<open>catch\<close> of \<^verbatim>\<open>checkEmailInbox\<close>: log and return.\<close>

definition caught :: "address \<Rightarrow> outcome \<Rightarrow> bot" where
  "caught a r = (case r of Done s \<Rightarrow> s | Threw s \<Rightarrow> logError (CheckError a) s | Beyond s \<Rightarrow> s)"

definition checkEmailInbox :: "env \<Rightarrow> chatId \<Rightarrow> address \<Rightarrow> bot \<Rightarrow> bot" where
  "checkEmailInbox w c a s =
     (case fetchEmailsForAddress w a (ensureUser c s) of
        (mails, s1) \<Rightarrow>
          caught a (case ensureSeen c a s1 of
                      Done s2 \<Rightarrow> mailLoop w c a s2 mails
                    | Threw s2 \<Rightarrow> Threw s2
                    | Beyond s2 \<Rightarrow> Beyond s2))"

text \<open>
  \<^verbatim>\<open>pollAllEmailsForUser\<close>: the \<^verbatim>\<open>for ... of\<close> runs over the tracked list, which no poll cycle
  changes.
\<close>

definition pollAllEmailsForUser :: "env \<Rightarrow> chatId \<Rightarrow> bot \<Rightarrow> bot" where
  "pollAllEmailsForUser w c s =
     (let s' = ensureUser c s
      in foldl (\<lambda>st a. checkEmailInbox w c a st) s'
           (case userData s' c of None \<Rightarrow> [] | Some u \<Rightarrow> emails u))"

section \<open>Startup (bot.js)\<close>

text \<open>
  A restart of the process. Nothing of the memory of the old process is left: \<^verbatim>\<open>userData\<close> is
  what \<^verbatim>\<open>JSON.parse\<close> reads from the file, or \<^verbatim>\<open>{}\<close> when the file is missing or does not parse
  (which is logged), and the built-in functions are new. What was sent to the chats before
  the restart stays sent, so the history goes on.
\<close>

definition restart :: "bot \<Rightarrow> bot" where
  "restart s =
     (case dataFile s of
        Stored d \<Rightarrow>
          \<lparr>userData = d, dataFile = Stored d, builtinMarks = (\<lambda>a i. False), history = history s\<rparr>
      | Absent \<Rightarrow>
          \<lparr>userData = Map.empty, dataFile = Absent, builtinMarks = (\<lambda>a i. False), history = history s\<rparr>
      | Corrupt \<Rightarrow>
          \<lparr>userData = Map.empty, dataFile = Corrupt, builtinMarks = (\<lambda>a i. False),
           history = history s @ [Logged LoadError]\<rparr>)"

section \<open>Command handlers (bot.js)\<close>

text \<open>
  Texts are ASCII: \<^verbatim>\<open>\s\<close> and \<^verbatim>\<open>trim\<close> see the tab, the line feed, the vertical tab, the
  form feed, the carriage return and the space.
\<close>

definition isSpace :: "char \<Rightarrow> bool" where
  "isSpace ch = (ch \<in> {CHR 0x09, CHR 0x0A, CHR 0x0B, CHR 0x0C, CHR 0x0D, CHR '' ''})"

definition trim :: "string \<Rightarrow> string" where
  "trim t = rev (dropWhile isSpace (rev (dropWhile isSpace t)))"

text \<open>\<^verbatim>\<open>t.split(sep)\<close> for a one-character separator: the empty string gives one empty piece.\<close>

fun splitOn :: "char \<Rightarrow> string \<Rightarrow> string list" where
  "splitOn sep [] = [[]]"
| "splitOn sep (x # xs) =
     (if x = sep then [] # splitOn sep xs
      else (case splitOn sep xs of [] \<Rightarrow> [[x]] | p # ps \<Rightarrow> (x # p) # ps))"

text \<open>\<^verbatim>\<open>t.split(/\s+/)\<close>: the pieces between the maximal runs of white space.\<close>

function splitSpaces :: "string \<Rightarrow> string list" where
  "splitSpaces [] = [[]]"
| "splitSpaces (x # xs) =
     (if isSpace x then [] # splitSpaces (dropWhile isSpace xs)
      else (case splitSpaces xs of [] \<Rightarrow> [[x]] | p # ps \<Rightarrow> (x # p) # ps))"
  by pat_completeness auto
termination
  by (relation "measure length") (auto simp: le_imp_less_Suc length_dropWhile_le)

definition getDomains :: "env \<Rightarrow> bot \<Rightarrow> string list \<times> bot" where
  "getDomains w s =
     (case domainsResponse w of
        Failed \<Rightarrow> ([], logError DomainsError s)
      | r \<Rightarrow> (normalise r, s))"

text \<open>
  \<^verbatim>\<open>generateRandomEmail\<close>: \<^verbatim>\<open>substring(2, 10)\<close> of the first draw's rendering, and the domain at
  index \<^verbatim>\<open>Math.floor(Math.random() * domains.length)\<close>; an index outside the array reads
  \<^verbatim>\<open>undefined\<close>.
\<close>

definition generateRandomEmail :: "env \<Rightarrow> string list \<Rightarrow> address" where
  "generateRandomEmail w domains =
     (let local = take 8 (drop 2 (random36 w));
          k = \<lfloor>randomUnit w * of_nat (length domains)\<rfloor>;
          domain = (if 0 \<le> k \<and> nat k < length domains then domains ! nat k else ''undefined'')
      in local @ ''@'' @ domain)"

text \<open>
  The user object of the chat with changed fields: \<^verbatim>\<open>userData[chatId].emails.push(...)\<close>,
  \<^verbatim>\<open>userData[chatId].emails = ...\<close> and \<^verbatim>\<open>delete userData[chatId].seenEmails[email]\<close>.
\<close>

definition setUser :: "chatId \<Rightarrow> user \<Rightarrow> bot \<Rightarrow> bot" where
  "setUser c u s = s\<lparr>userData := (userData s)(c \<mapsto> u)\<rparr>"

text \<open>\<^verbatim>\<open>/new\<close>\<close>

definition onNew :: "env \<Rightarrow> chatId \<Rightarrow> bot \<Rightarrow> outcome" where
  "onNew w c s =
     (case getDomains w (ensureUser c s) of
        (domains, s1) \<Rightarrow>
          if length domains = 0 then Done (sendTelegram w c NoDomains s1)
          else
            (case userData s1 c of
               None \<Rightarrow> Threw s1
             | Some u \<Rightarrow>
                 let newEmail = generateRandomEmail w domains;
                     s2 = setUser c (u\<lparr>emails := emails u @ [newEmail]\<rparr>) s1
                 in Done (sendTelegram w c (Created newEmail) (saveData w s2))))"

text \<open>\<^verbatim>\<open>/add <email>\<close>\<close>

definition onAdd :: "env \<Rightarrow> chatId \<Rightarrow> string \<Rightarrow> bot \<Rightarrow> outcome" where
  "onAdd w c text s =
     (let s1 = ensureUser c s;
          parts = splitSpaces (trim text)
      in if length parts < 2 then Done (sendTelegram w c UsageAdd s1)
         else
           (case userData s1 c of
              None \<Rightarrow> Threw s1
            | Some u \<Rightarrow>
                let email = trim (parts ! 1)
                in if email \<notin> set (emails u)
                   then Done (sendTelegram w c (NowTracking email)
                               (saveData w (setUser c (u\<lparr>emails := emails u @ [email]\<rparr>) s1)))
                   else Done (sendTelegram w c (AlreadyTracking email) s1)))"

text \<open>
  \<^verbatim>\<open>/delete <email>\<close>: \<^verbatim>\<open>filter\<close> on the list, \<^verbatim>\<open>delete\<close> on the seen entry when there is one.
\<close>

definition forget :: "address \<Rightarrow> user \<Rightarrow> user" where
  "forget email u =
     u\<lparr>emails := filter (\<lambda>e. e \<noteq> email) (emails u), seenEmails := (seenEmails u)(email := None)\<rparr>"

definition onDelete :: "env \<Rightarrow> chatId \<Rightarrow> string \<Rightarrow> bot \<Rightarrow> outcome" where
  "onDelete w c text s =
     (let s1 = ensureUser c s
      in case userData s1 c of
           None \<Rightarrow> Done (sendTelegram w c NoTracked s1)
         | Some u \<Rightarrow>
             let parts = splitSpaces (trim text)
             in if length parts < 2 then Done (sendTelegram w c UsageDelete s1)
                else
                  let email = trim (parts ! 1);
                      beforeLength = length (emails u);
                      u' = forget email u;
                      s2 = saveData w (setUser c u' s1)
                  in if length (emails u') < beforeLength
                     then Done (sendTelegram w c (Stopped email) s2)
                     else Done (sendTelegram w c (NotFound email) s2))"

text \<open>
  \<^verbatim>\<open>/import <list>\<close>: the loop pushes every address the list does not include yet and counts
  the pushes.
\<close>

fun importLoop :: "address list \<Rightarrow> address list \<Rightarrow> nat \<Rightarrow> address list \<times> nat" where
  "importLoop [] tracked imported = (tracked, imported)"
| "importLoop (e # es) tracked imported =
     (if e \<notin> set tracked then importLoop es (tracked @ [e]) (Suc imported)
      else importLoop es tracked imported)"

definition onImport :: "env \<Rightarrow> chatId \<Rightarrow> string \<Rightarrow> bot \<Rightarrow> outcome" where
  "onImport w c text s =
     (let s1 = ensureUser c s;
          parts = take 2 (splitSpaces (trim text))
      in if length parts < 2 then Done (sendTelegram w c UsageImport s1)
         else
           let emailList = parts ! 1;
               es = filter (\<lambda>e. e \<noteq> []) (map trim (splitOn (CHR '','') emailList))
           in if length es = 0 then Done (sendTelegram w c InvalidImport s1)
              else
                (case userData s1 c of
                   None \<Rightarrow> Threw s1
                 | Some u \<Rightarrow>
                     (case importLoop es (emails u) 0 of
                        (tracked, imported) \<Rightarrow>
                          Done (sendTelegram w c (Imported imported (length tracked))
                                 (saveData w (setUser c (u\<lparr>emails := tracked\<rparr>) s1))))))"

section \<open>Command handlers (backup.js)\<close>

text \<open>
  The handlers of backup.js take the address from the capture group of their pattern
  (\<^verbatim>\<open>match[1]\<close>), here the argument \<open>arg\<close>.
\<close>

definition backup_onDelete :: "env \<Rightarrow> chatId \<Rightarrow> string \<Rightarrow> bot \<Rightarrow> outcome" where
  "backup_onDelete w c arg s =
     (case userData s c of
        None \<Rightarrow> Done (sendTelegram w c NoTracked s)
      | Some u \<Rightarrow>
          let email = trim arg
          in Done (sendTelegram w c (Stopped email) (saveData w (setUser c (forget email u) s))))"

definition backup_onImport :: "env \<Rightarrow> chatId \<Rightarrow> string \<Rightarrow> bot \<Rightarrow> outcome" where
  "backup_onImport w c arg s =
     (let s1 = ensureUser c s;
          es = filter (\<lambda>e. e \<noteq> []) (map trim (splitOn (CHR '','') arg))
      in case userData s1 c of
           None \<Rightarrow> Threw s1
         | Some u \<Rightarrow>
             (case importLoop es (emails u) 0 of
                (tracked, imported) \<Rightarrow>
                  Done (sendTelegram w c (ImportedCount (length es))
                         (saveData w (setUser c (u\<lparr>emails := tracked\<rparr>) s1)))))"

section \<open>bot2.js\<close>

text \<open>
  bot2.js calls \<^verbatim>\<open>bot.sendMessage\<close> itself: nothing catches or logs its rejection. Where the
  call is awaited a failed send throws; the result says whether the message was delivered.
\<close>

definition sendMessage :: "env \<Rightarrow> chatId \<Rightarrow> message \<Rightarrow> bot \<Rightarrow> bot \<times> bool" where
  "sendMessage w c t s =
     (s\<lparr>history := history s @ [Sent c t (delivered w (sendCount s))]\<rparr>, delivered w (sendCount s))"

text \<open>\<^verbatim>\<open>fetchEmails\<close> and \<^verbatim>\<open>fetchAttachments\<close> return the body as it is; \<^verbatim>\<open>for ... of\<close> throws on
  a body that is not an array.\<close>

definition bot2_iterable :: "'a response \<Rightarrow> 'a list option" where
  "bot2_iterable r = (case r of Failed \<Rightarrow> Some [] | Bare xs \<Rightarrow> Some xs | Envelope xs \<Rightarrow> None | Other \<Rightarrow> None)"

fun bot2_attachmentLoop :: "env \<Rightarrow> chatId \<Rightarrow> bot \<Rightarrow> attachment list \<Rightarrow> outcome" where
  "bot2_attachmentLoop w c s [] = Done s"
| "bot2_attachmentLoop w c s (att # atts) =
     (case sendMessage w c (AttachmentInfo att) s of
        (s', ok) \<Rightarrow> if ok then bot2_attachmentLoop w c s' atts else Threw s')"

text \<open>What the loop body of bot2.js does for a new mail after the mark.\<close>

definition bot2_notifyNew :: "env \<Rightarrow> chatId \<Rightarrow> address \<Rightarrow> mail \<Rightarrow> bot \<Rightarrow> outcome" where
  "bot2_notifyNew w c a m s1 =
     (case sendMessage w c (NewEmail a m) s1 of
        (s2, ok) \<Rightarrow>
          if \<not> ok then Threw s2
          else if hasAttachments m
          then (case bot2_iterable (attachmentsResponse w a) of
                  None \<Rightarrow> Threw s2
                | Some atts \<Rightarrow>
                    (case bot2_attachmentLoop w c s2 atts of
                       Done s3 \<Rightarrow> Done (saveData w s3)
                     | Threw s3 \<Rightarrow> Threw s3
                     | Beyond s3 \<Rightarrow> Beyond s3))
          else Done (saveData w s2))"

definition bot2_processMail :: "env \<Rightarrow> chatId \<Rightarrow> address \<Rightarrow> bot \<Rightarrow> mail \<Rightarrow> outcome" where
  "bot2_processMail w c a s m =
     (case userData s c of
        None \<Rightarrow> Threw s
      | Some u \<Rightarrow>
          (case seenEmails u a of
             Some marks \<Rightarrow>
               if truthy marks (mail_id m) then Done s
               else bot2_notifyNew w c a m (markSeen c a (mail_id m) u marks s)
           | None \<Rightarrow>
               if \<not> inherited a then Threw s
               else if a = ''__proto__'' \<or> engineProps w a (mail_id m)
               then Beyond (outside c a (mail_id m) s)
               else if builtinMarks s a (mail_id m) then Done s
               else bot2_notifyNew w c a m (markBuiltin c a (mail_id m) s)))"

fun bot2_mailLoop :: "env \<Rightarrow> chatId \<Rightarrow> address \<Rightarrow> bot \<Rightarrow> mail list \<Rightarrow> outcome" where
  "bot2_mailLoop w c a s [] = Done s"
| "bot2_mailLoop w c a s (m # ms) =
     (case bot2_processMail w c a s m of
        Done s' \<Rightarrow> bot2_mailLoop w c a s' ms
      | Threw s' \<Rightarrow> Threw s'
      | Beyond s' \<Rightarrow> Beyond s')"

definition bot2_checkEmailInbox :: "env \<Rightarrow> chatId \<Rightarrow> address \<Rightarrow> bot \<Rightarrow> bot" where
  "bot2_checkEmailInbox w c a s =
     caught a (case ensureSeen c a (ensureUser c s) of
                 Threw s1 \<Rightarrow> Threw s1
               | Beyond s1 \<Rightarrow> Beyond s1
               | Done s1 \<Rightarrow>
                   (case bot2_iterable (emailsResponse w a) of
                      None \<Rightarrow> Threw s1
                    | Some mails \<Rightarrow> bot2_mailLoop w c a s1 mails))"

definition bot2_onDelete :: "env \<Rightarrow> chatId \<Rightarrow> string \<Rightarrow> bot \<Rightarrow> outcome" where
  "bot2_onDelete w c arg s =
     (let email = trim arg;
          s1 = ensureUser c s
      in case userData s1 c of
           None \<Rightarrow> Threw s1
         | Some u \<Rightarrow>
             Done (fst (sendMessage w c (Removed email)
                     (saveData w (setUser c (u\<lparr>emails := filter (\<lambda>e. e \<noteq> email) (emails u)\<rparr>) s1)))))"

definition bot2_onImport :: "env \<Rightarrow> chatId \<Rightarrow> string \<Rightarrow> bot \<Rightarrow> outcome" where
  "bot2_onImport w c arg s =
     (let s1 = ensureUser c s;
          es = map trim (splitOn (CHR '','') arg)
      in case userData s1 c of
           None \<Rightarrow> Threw s1
         | Some u \<Rightarrow>
             (case importLoop es (emails u) 0 of
                (tracked, imported) \<Rightarrow>
                  Done (fst (sendMessage w c (ImportedCount (length es))
                          (saveData w (setUser c (u\<lparr>emails := tracked\<rparr>) s1))))))"

section \<open>Observations on a run\<close>

text \<open>A send attempt of the new-mail notification of message \<open>i\<close> of address \<open>a\<close> to chat \<open>c\<close>.\<close>

fun isNewEmailFor :: "chatId \<Rightarrow> address \<Rightarrow> msgId \<Rightarrow> event \<Rightarrow> bool" where
  "isNewEmailFor c a i (Sent c' (NewEmail a' m) ok) = (c' = c \<and> a' = a \<and> mail_id m = i)"
| "isNewEmailFor c a i e = False"

text \<open>How many new-mail notifications of message \<open>i\<close> the bot has attempted so far.\<close>

definition notified :: "chatId \<Rightarrow> address \<Rightarrow> msgId \<Rightarrow> bot \<Rightarrow> nat" where
  "notified c a i s = length (filter (isNewEmailFor c a i) (history s))"

text \<open>The objects the loop of \<^verbatim>\<open>checkEmailInbox\<close> reads exist.\<close>

definition present :: "chatId \<Rightarrow> address \<Rightarrow> bot \<Rightarrow> bool" where
  "present c a s = (\<exists>u marks. userData s c = Some u \<and> seenEmails u a = Some marks)"

text \<open>The tracked list, the seen entry and a single mark, read from \<^verbatim>\<open>userData\<close>.\<close>

definition tracked :: "store \<Rightarrow> chatId \<Rightarrow> address list" where
  "tracked d c = (case d c of None \<Rightarrow> [] | Some u \<Rightarrow> emails u)"

definition marksOf :: "store \<Rightarrow> chatId \<Rightarrow> address \<Rightarrow> (msgId \<rightharpoonup> bool) option" where
  "marksOf d c a = (case d c of None \<Rightarrow> None | Some u \<Rightarrow> seenEmails u a)"

definition markAt :: "store \<Rightarrow> chatId \<Rightarrow> address \<Rightarrow> msgId \<Rightarrow> bool option" where
  "markAt d c a i = (case marksOf d c a of None \<Rightarrow> None | Some marks \<Rightarrow> marks i)"

text \<open>
  Whether the poller of chat \<open>c\<close> takes message \<open>i\<close> of address \<open>a\<close> as seen in the store \<open>d\<close>,
  for an address that is not an inherited name: the truthiness of
  \<^verbatim>\<open>d[c].seenEmails[a][i]\<close> once the cycle has made the user and the entry of the address
  where they were missing. It holds when the entry has the mark \<^verbatim>\<open>true\<close>, and, without a mark
  of its own, when the id is an inherited name.
\<close>

definition seenIn :: "store \<Rightarrow> chatId \<Rightarrow> address \<Rightarrow> msgId \<Rightarrow> bool" where
  "seenIn d c a i = (case marksOf d c a of None \<Rightarrow> inherited i | Some marks \<Rightarrow> truthy marks i)"

text \<open>
  What a poll cycle for chat \<open>c\<close> and address \<open>a\<close> leaves alone in \<^verbatim>\<open>userData\<close>: the other
  chats, the tracked lists, and the seen entries of the other addresses of the chat.
\<close>

definition untouched :: "chatId \<Rightarrow> address \<Rightarrow> store \<Rightarrow> store \<Rightarrow> bool" where
  "untouched c a d d' =
     ((\<forall>c'. c' \<noteq> c \<longrightarrow> d' c' = d c')
      \<and> (\<forall>c'. tracked d' c' = tracked d c')
      \<and> (\<forall>a'. a' \<noteq> a \<longrightarrow> marksOf d' c a' = marksOf d c a'))"

fun isMarked :: "event \<Rightarrow> bool" where
  "isMarked (Marked c a i) = True"
| "isMarked e = False"

fun isNewEmail :: "event \<Rightarrow> bool" where
  "isNewEmail (Sent c (NewEmail a m) ok) = True"
| "isNewEmail e = False"

text \<open>
  Commit before send: in the events \<open>t\<close>, the event just before a new-mail notification is
  the in-memory mark of that message.
\<close>

definition commitBeforeSend :: "event list \<Rightarrow> bool" where
  "commitBeforeSend t =
     (\<forall>pre c a m ok post. t = pre @ Sent c (NewEmail a m) ok # post
        \<longrightarrow> pre \<noteq> [] \<and> last pre = Marked c a (mail_id m))"

text \<open>Every mark is followed by a \<^verbatim>\<open>saveData\<close> before the next mark.\<close>

definition savedAfterEachMark :: "event list \<Rightarrow> bool" where
  "savedAfterEachMark t =
     (\<forall>pre c a i post. t = pre @ Marked c a i # post
        \<longrightarrow> (\<exists>mid d ok rest. post = mid @ Saved d ok # rest \<and> (\<forall>e \<in> set mid. \<not> isMarked e)))"

text \<open>
  Every snapshot handed to \<^verbatim>\<open>saveData\<close> is the whole store: it holds the tracked lists of the
  store \<open>d0\<close> the events started from, and its marks, with the marks made before the save set
  to true.
\<close>

definition fullSnapshots :: "store \<Rightarrow> event list \<Rightarrow> bool" where
  "fullSnapshots d0 t =
     (\<forall>pre d ok post. t = pre @ Saved d ok # post
        \<longrightarrow> (\<forall>c. tracked d c = tracked d0 c)
          \<and> (\<forall>c a i. markAt d c a i = (if Marked c a i \<in> set pre then Some True else markAt d0 c a i)))"

text \<open>
  The file after a run is cut off behind the events \<open>t\<close>: what the writes left, and the marks
  a stored snapshot holds.
\<close>

fun writeEvent :: "datafile \<Rightarrow> event \<Rightarrow> datafile" where
  "writeEvent f (Saved d r) = (case r of Complete \<Rightarrow> Stored d | Refused \<Rightarrow> f | Torn \<Rightarrow> Corrupt)"
| "writeEvent f e = f"

definition fileAfter :: "datafile \<Rightarrow> event list \<Rightarrow> datafile" where
  "fileAfter f t = foldl writeEvent f t"

definition storedMark :: "datafile \<Rightarrow> chatId \<Rightarrow> address \<Rightarrow> msgId \<Rightarrow> bool" where
  "storedMark f c a i =
     (case f of Stored d \<Rightarrow> markAt d c a i = Some True | Absent \<Rightarrow> False | Corrupt \<Rightarrow> False)"

text \<open>The file holds no mark that memory does not hold.\<close>

definition fileWithinMemory :: "datafile \<Rightarrow> store \<Rightarrow> bool" where
  "fileWithinMemory f d = (\<forall>c a i. storedMark f c a i \<longrightarrow> markAt d c a i = Some True)"

fun isTorn :: "event \<Rightarrow> bool" where
  "isTorn (Saved d r) = (r = Torn)"
| "isTorn e = False"

text \<open>
  Wherever the events are cut off, a mark that was in the file at an earlier cut is in the
  file at a later one, unless the file cannot be read there.
\<close>

definition neverLost :: "datafile \<Rightarrow> event list \<Rightarrow> bool" where
  "neverLost f t =
     (\<forall>k k' c a i. k \<le> k' \<longrightarrow> storedMark (fileAfter f (take k t)) c a i
        \<longrightarrow> storedMark (fileAfter f (take k' t)) c a i \<or> fileAfter f (take k' t) = Corrupt)"

text \<open>
  Wherever the events are cut off, the file cannot be read there only if it could not be read
  before them or one of the writes before the cut was torn.
\<close>

definition unreadableOnlyTorn :: "datafile \<Rightarrow> event list \<Rightarrow> bool" where
  "unreadableOnlyTorn f t =
     (\<forall>k. fileAfter f (take k t) = Corrupt \<longrightarrow> f = Corrupt \<or> (\<exists>e \<in> set (take k t). isTorn e))"

text \<open>Events that are neither a mark, nor a save, nor a new-mail notification.\<close>

definition quiet :: "event list \<Rightarrow> bool" where
  "quiet t = (\<forall>e \<in> set t. \<not> isMarked e \<and> \<not> isSaved e \<and> \<not> isNewEmail e)"

text \<open>Whether a handler ran to its end, and the state it leaves either way.\<close>

fun completed :: "outcome \<Rightarrow> bool" where
  "completed (Done s) = True"
| "completed (Threw s) = False"
| "completed (Beyond s) = False"

fun stateOf :: "outcome \<Rightarrow> bot" where
  "stateOf (Done s) = s"
| "stateOf (Threw s) = s"
| "stateOf (Beyond s) = s"

text \<open>
  Two states that show the same to the chats: the same send attempts with the same outcomes,
  as many \<^verbatim>\<open>saveData\<close> calls, the same marks and the same tracked lists.
\<close>

definition sameRun :: "bot \<Rightarrow> bot \<Rightarrow> bool" where
  "sameRun s s' =
     (filter isSent (history s) = filter isSent (history s')
      \<and> saveCount s = saveCount s'
      \<and> (\<forall>c a i. markAt (userData s) c a i = markAt (userData s') c a i)
      \<and> (\<forall>c. tracked (userData s) c = tracked (userData s') c))"

text \<open>
  Two states that a poll cycle cannot tell apart: they look the same, agree on the marks put
  on built-in functions, and have an entry under an inherited name in the same chats.
\<close>

definition alike :: "bot \<Rightarrow> bot \<Rightarrow> bool" where
  "alike s s' =
     (sameRun s s' \<and> builtinMarks s = builtinMarks s'
      \<and> (\<forall>c a. inherited a \<longrightarrow> (marksOf (userData s) c a = None) = (marksOf (userData s') c a = None)))"

text \<open>
  The messages the bot attempted to send, in order, without their outcomes; and two states
  with the same attempts, marks and tracked lists.
\<close>

fun attemptOf :: "event \<Rightarrow> (chatId \<times> message) list" where
  "attemptOf (Sent c t ok) = [(c, t)]"
| "attemptOf e = []"

definition attempts :: "bot \<Rightarrow> (chatId \<times> message) list" where
  "attempts s = concat (map attemptOf (history s))"

definition sameAttempts :: "bot \<Rightarrow> bot \<Rightarrow> bool" where
  "sameAttempts s s' =
     (attempts s = attempts s'
      \<and> (\<forall>c a i. markAt (userData s) c a i = markAt (userData s') c a i)
      \<and> (\<forall>c. tracked (userData s) c = tracked (userData s') c))"

text \<open>
  What \<^verbatim>\<open>toString(36)\<close> renders for a number of the unit interval: \<^verbatim>\<open>0\<close>, or \<^verbatim>\<open>0.\<close> and at
  least one digit of base 36.
\<close>

definition isDigit36 :: "char \<Rightarrow> bool" where
  "isDigit36 ch = (ch \<in> set ''0123456789abcdefghijklmnopqrstuvwxyz'')"

definition rendering36 :: "string \<Rightarrow> bool" where
  "rendering36 r = (r = ''0'' \<or> (take 2 r = ''0.'' \<and> drop 2 r \<noteq> [] \<and> list_all isDigit36 (drop 2 r)))"

section \<open>Example inputs\<close>

definition mailA :: mail where
  "mailA = \<lparr>mail_id = ''1'', mail_from = Some ''alice@b.test'', subject = Some ''hello'',
            preview = None, hasAttachments = False\<rparr>"

definition mailB :: mail where
  "mailB = \<lparr>mail_id = ''2'', mail_from = None, subject = None,
            preview = Some ''see the file'', hasAttachments = True\<rparr>"

text \<open>A message whose id is an inherited name.\<close>

definition mailC :: mail where
  "mailC = \<lparr>mail_id = ''constructor'', mail_from = None, subject = None,
            preview = None, hasAttachments = False\<rparr>"

text \<open>
  The string-named properties of a built-in function besides the inherited names: its own
  and those of \<^verbatim>\<open>Function.prototype\<close>. The function behind \<^verbatim>\<open>constructor\<close> has many more,
  so the examples count every name as taken there.
\<close>

definition functionProps :: "string list" where
  "functionProps = [''length'', ''name'', ''prototype'', ''arguments'', ''caller'', ''apply'', ''bind'', ''call'']"

definition exampleEnv :: env where
  "exampleEnv =
     \<lparr>domainsResponse = Envelope [''a.test'', ''b.test''],
      emailsResponse = (\<lambda>a. if a = ''x@a.test'' then Envelope [mailA, mailB] else Failed),
      attachmentsResponse = (\<lambda>a. Bare [\<lparr>filename = ''f.pdf'', att_size = None, url = ''u''\<rparr>]),
      delivered = (\<lambda>n. True),
      written = (\<lambda>n. Complete),
      engineProps = (\<lambda>a i. a = ''constructor'' \<or> inherited i \<or> i \<in> set functionProps),
      random36 = ''0.k3j9x2m1qz7'',
      randomUnit = 1 / 2\<rparr>"

text \<open>The provider is down.\<close>

definition downEnv :: env where
  "downEnv = exampleEnv\<lparr>emailsResponse := (\<lambda>a. Failed)\<rparr>"

text \<open>The provider answers with a plain array and the first send fails.\<close>

definition flakyEnv :: env where
  "flakyEnv = exampleEnv\<lparr>emailsResponse := (\<lambda>a. Bare [mailA, mailB]), delivered := (\<lambda>n. n \<noteq> 0)\<rparr>"

text \<open>The second write of the file stops part-way.\<close>

definition tornEnv :: env where
  "tornEnv = exampleEnv\<lparr>written := (\<lambda>n. if n = 1 then Torn else Complete)\<rparr>"

text \<open>
  The provider reports message 1 for the address \<^verbatim>\<open>toString\<close> and a message with the id
  \<^verbatim>\<open>constructor\<close> for \<^verbatim>\<open>x@a.test\<close>.
\<close>

definition oddEnv :: env where
  "oddEnv = exampleEnv\<lparr>emailsResponse :=
     (\<lambda>a. if a = ''toString'' then Envelope [mailA] else if a = ''x@a.test'' then Envelope [mailC] else Failed)\<rparr>"

text \<open>\<^verbatim>\<open>Math.random()\<close> returns 0.5, which \<^verbatim>\<open>toString(36)\<close> renders as \<^verbatim>\<open>0.i\<close>.\<close>

definition halfEnv :: env where
  "halfEnv = exampleEnv\<lparr>random36 := ''0.i''\<rparr>"

text \<open>The first draw renders as \<^verbatim>\<open>0.abcdefgh1k\<close> and the provider offers one domain.\<close>

definition collidingEnv :: env where
  "collidingEnv = exampleEnv\<lparr>domainsResponse := Envelope [''a.test''], random36 := ''0.abcdefgh1k''\<rparr>"

definition freshBot :: bot where
  "freshBot = \<lparr>userData = Map.empty, dataFile = Absent, builtinMarks = (\<lambda>a i. False), history = []\<rparr>"

text \<open>
  Chat 7 tracks two addresses and has seen message 0 of the first; chat 8 tracks one address
  that was never polled. The file holds the same.
\<close>

definition exampleStore :: store where
  "exampleStore =
     [7 \<mapsto> \<lparr>emails = [''x@a.test'', ''y@a.test''],
             seenEmails = [''x@a.test'' \<mapsto> [''0'' \<mapsto> True]]\<rparr>,
      8 \<mapsto> \<lparr>emails = [''x@a.test''], seenEmails = Map.empty\<rparr>]"

definition syncedBot :: bot where
  "syncedBot =
     \<lparr>userData = exampleStore, dataFile = Stored exampleStore, builtinMarks = (\<lambda>a i. False), history = []\<rparr>"

text \<open>
  Chats 7 and 8 have sent \<^verbatim>\<open>/add toString\<close>, chat 7 also \<^verbatim>\<open>/add x@a.test\<close>; nothing was polled
  yet, and the process has just started from the file.
\<close>

definition oddStore :: store where
  "oddStore =
     [7 \<mapsto> \<lparr>emails = [''x@a.test'', ''toString''], seenEmails = Map.empty\<rparr>,
      8 \<mapsto> \<lparr>emails = [''toString''], seenEmails = Map.empty\<rparr>]"

definition oddBot :: bot where
  "oddBot =
     \<lparr>userData = oddStore, dataFile = Stored oddStore, builtinMarks = (\<lambda>a i. False), history = []\<rparr>"

section \<open>Effects of the helpers\<close>

lemma userData_logError [simp]: "userData (logError l s) = userData s"
  and dataFile_logError [simp]: "dataFile (logError l s) = dataFile s"
  and history_logError [simp]: "history (logError l s) = history s @ [Logged l]"
  by (simp_all add: logError_def)

lemma userData_sendTelegram [simp]: "userData (sendTelegram w c t s) = userData s"
  and dataFile_sendTelegram [simp]: "dataFile (sendTelegram w c t s) = dataFile s"
  and builtinMarks_sendTelegram [simp]: "builtinMarks (sendTelegram w c t s) = builtinMarks s"
  by (simp_all add: sendTelegram_def)

lemma builtinMarks_logError [simp]: "builtinMarks (logError l s) = builtinMarks s"
  by (simp add: logError_def)

lemma history_sendTelegram:
  "history (sendTelegram w c t s) =
     history s @ Sent c t (delivered w (sendCount s)) # (if delivered w (sendCount s) then [] else [Logged SendError])"
  by (simp add: sendTelegram_def)

lemma userData_saveData [simp]: "userData (saveData w s) = userData s"
  and builtinMarks_saveData [simp]: "builtinMarks (saveData w s) = builtinMarks s"
  by (simp_all add: saveData_def split: writeResult.splits)

lemma history_saveData:
  "history (saveData w s) =
     history s @ Saved (userData s) (written w (saveCount s))
       # (if written w (saveCount s) = Complete then [] else [Logged SaveError])"
  by (simp add: saveData_def split: writeResult.splits)

lemma notified_sendTelegram:
  "notified c a i (sendTelegram w c' t s) = notified c a i s + (if isNewEmailFor c a i (Sent c' t True) then 1 else 0)"
  by (cases t) (simp_all add: notified_def history_sendTelegram)

lemma notified_saveData [simp]: "notified c a i (saveData w s) = notified c a i s"
  by (simp add: notified_def history_saveData)

lemma notified_logError [simp]: "notified c a i (logError l s) = notified c a i s"
  by (simp add: notified_def)

lemma userData_attLoop [simp]:
  "userData (foldl (\<lambda>st att. sendTelegram w c (AttachmentInfo att) st) s atts) = userData s"
  by (induction atts arbitrary: s) simp_all

lemma dataFile_attLoop [simp]:
  "dataFile (foldl (\<lambda>st att. sendTelegram w c (AttachmentInfo att) st) s atts) = dataFile s"
  by (induction atts arbitrary: s) simp_all

lemma builtinMarks_attLoop [simp]:
  "builtinMarks (foldl (\<lambda>st att. sendTelegram w c (AttachmentInfo att) st) s atts) = builtinMarks s"
  by (induction atts arbitrary: s) simp_all

lemma notified_attLoop [simp]:
  "notified c a i (foldl (\<lambda>st att. sendTelegram w c' (AttachmentInfo att) st) s atts) = notified c a i s"
  by (induction atts arbitrary: s) (simp_all add: notified_sendTelegram)

lemma userData_sendAttachments [simp]: "userData (sendAttachments w c a s) = userData s"
  by (simp add: sendAttachments_def fetchAttachmentsForAddress_def split: response.splits)

lemma dataFile_sendAttachments [simp]: "dataFile (sendAttachments w c a s) = dataFile s"
  by (simp add: sendAttachments_def fetchAttachmentsForAddress_def split: response.splits)

lemma builtinMarks_sendAttachments [simp]: "builtinMarks (sendAttachments w c a s) = builtinMarks s"
  by (simp add: sendAttachments_def fetchAttachmentsForAddress_def split: response.splits)

lemma notified_sendAttachments [simp]: "notified c a i (sendAttachments w c' a' s) = notified c a i s"
  by (simp add: sendAttachments_def fetchAttachmentsForAddress_def split: response.splits)

lemma notified_markSeen [simp]: "notified c a i (markSeen c' a' i' u marks s) = notified c a i s"
  by (simp add: notified_def markSeen_def)

lemma userData_markSeen:
  "userData (markSeen c a i u marks s) = (userData s)(c \<mapsto> u\<lparr>seenEmails := (seenEmails u)(a \<mapsto> marks(i \<mapsto> True))\<rparr>)"
  by (simp add: markSeen_def)

lemma builtinMarks_markSeen [simp]: "builtinMarks (markSeen c a i u marks s) = builtinMarks s"
  and dataFile_markSeen [simp]: "dataFile (markSeen c a i u marks s) = dataFile s"
  by (simp_all add: markSeen_def)

lemma userData_notifyNew [simp]: "userData (notifyNew w c a m s) = userData s"
  and builtinMarks_notifyNew [simp]: "builtinMarks (notifyNew w c a m s) = builtinMarks s"
  by (simp_all add: notifyNew_def Let_def)

lemma notified_notifyNew:
  "notified c a i (notifyNew w c' a' m s)
     = notified c a i s + (if c' = c \<and> a' = a \<and> mail_id m = i then 1 else 0)"
  by (simp add: notifyNew_def Let_def notified_sendTelegram)

lemma processMail_Done:
  assumes "present c a s"
  shows "\<exists>s'. processMail w c a s m = Done s' \<and> present c a s'
          \<and> (\<forall>j. seenIn (userData s') c a j = (seenIn (userData s) c a j \<or> j = mail_id m))
          \<and> (\<forall>j. notified c a j s' = notified c a j s + (if j = mail_id m \<and> \<not> seenIn (userData s) c a j then 1 else 0))"
proof -
  from assms obtain u marks where u: "userData s c = Some u" "seenEmails u a = Some marks"
    by (auto simp: present_def)
  have se: "seenIn (userData s) c a j = truthy marks j" for j
    using u by (simp add: seenIn_def marksOf_def)
  show ?thesis
  proof (cases "truthy marks (mail_id m)")
    case True
    then have "processMail w c a s m = Done s" using u by (simp add: processMail_def)
    then show ?thesis using assms True se by auto
  next
    case False
    let ?s' = "notifyNew w c a m (markSeen c a (mail_id m) u marks s)"
    have r: "processMail w c a s m = Done ?s'" using u False by (simp add: processMail_def)
    have p: "present c a ?s'" by (simp add: present_def userData_markSeen)
    have "seenIn (userData ?s') c a j = (truthy marks j \<or> j = mail_id m)" for j
      by (simp add: seenIn_def marksOf_def userData_markSeen truthy_def)
    moreover have "notified c a j ?s' = notified c a j s + (if j = mail_id m \<and> \<not> truthy marks j then 1 else 0)" for j
      using False by (auto simp: notified_notifyNew)
    ultimately show ?thesis using r p se by simp
  qed
qed

lemma mailLoop_Done:
  assumes "present c a s"
  shows "\<exists>s'. mailLoop w c a s ms = Done s' \<and> present c a s'
          \<and> (\<forall>j. seenIn (userData s') c a j = (seenIn (userData s) c a j \<or> j \<in> mail_id ` set ms))
          \<and> (\<forall>j. notified c a j s' = notified c a j s + (if j \<in> mail_id ` set ms \<and> \<not> seenIn (userData s) c a j then 1 else 0))"
  using assms
proof (induction ms arbitrary: s)
  case Nil
  then show ?case by simp
next
  case (Cons m ms)
  from processMail_Done [OF Cons.prems, of w m] obtain s1 where
    s1: "processMail w c a s m = Done s1" "present c a s1"
      "\<And>j. seenIn (userData s1) c a j = (seenIn (userData s) c a j \<or> j = mail_id m)"
      "\<And>j. notified c a j s1 = notified c a j s + (if j = mail_id m \<and> \<not> seenIn (userData s) c a j then 1 else 0)"
    by blast
  from Cons.IH [OF s1(2)] obtain s2 where
    s2: "mailLoop w c a s1 ms = Done s2" "present c a s2"
      "\<And>j. seenIn (userData s2) c a j = (seenIn (userData s1) c a j \<or> j \<in> mail_id ` set ms)"
      "\<And>j. notified c a j s2 = notified c a j s1 + (if j \<in> mail_id ` set ms \<and> \<not> seenIn (userData s1) c a j then 1 else 0)"
    by blast
  have "mailLoop w c a s (m # ms) = Done s2" using s1(1) s2(1) by simp
  moreover have "\<forall>j. seenIn (userData s2) c a j = (seenIn (userData s) c a j \<or> j \<in> mail_id ` set (m # ms))"
    using s1(3) s2(3) by auto
  moreover have "\<forall>j. notified c a j s2 = notified c a j s + (if j \<in> mail_id ` set (m # ms) \<and> \<not> seenIn (userData s) c a j then 1 else 0)"
    using s1(3,4) s2(4) by auto
  ultimately show ?case using s2(2) by blast
qed


lemma fetchEmails_fst [simp]: "fst (fetchEmailsForAddress w a s) = normalise (emailsResponse w a)"
  by (simp add: fetchEmailsForAddress_def normalise_def split: response.splits)

lemma fetchEmails_userData [simp]: "userData (snd (fetchEmailsForAddress w a s)) = userData s"
  by (simp add: fetchEmailsForAddress_def split: response.splits)

lemma fetchEmails_notified [simp]: "notified c a' i (snd (fetchEmailsForAddress w a s)) = notified c a' i s"
  by (simp add: fetchEmailsForAddress_def split: response.splits)

lemma seenIn_ensureUser [simp]: "seenIn (userData (ensureUser c s)) c' a i = seenIn (userData s) c' a i"
  by (simp add: ensureUser_def seenIn_def marksOf_def split: option.splits)

lemma builtinMarks_ensureUser [simp]: "builtinMarks (ensureUser c s) = builtinMarks s"
  by (simp add: ensureUser_def split: option.splits)

lemma fetchEmails_builtinMarks [simp]: "builtinMarks (snd (fetchEmailsForAddress w a s)) = builtinMarks s"
  by (simp add: fetchEmailsForAddress_def split: response.splits)

lemma notified_ensureUser [simp]: "notified c' a i (ensureUser c s) = notified c' a i s"
  by (simp add: ensureUser_def notified_def split: option.splits)

lemma ensureUser_Some: "\<exists>u. userData (ensureUser c s) c = Some u"
  by (simp add: ensureUser_def split: option.splits)

lemma ensureSeen_Done:
  assumes "userData s c = Some u" "\<not> inherited a"
  shows "\<exists>s'. ensureSeen c a s = Done s' \<and> present c a s'
           \<and> (\<forall>c' a' j. seenIn (userData s') c' a' j = seenIn (userData s) c' a' j)
           \<and> history s' = history s \<and> dataFile s' = dataFile s"
  using assms
  by (auto simp: ensureSeen_def present_def seenIn_def marksOf_def truthy_def split: option.splits)

lemma cycle_summary:
  assumes na: "\<not> inherited a"
  shows "present c a (checkEmailInbox w c a s)
   \<and> (\<forall>j. seenIn (userData (checkEmailInbox w c a s)) c a j
           = (seenIn (userData s) c a j \<or> j \<in> mail_id ` set (normalise (emailsResponse w a))))
   \<and> (\<forall>j. notified c a j (checkEmailInbox w c a s)
           = notified c a j s
             + (if j \<in> mail_id ` set (normalise (emailsResponse w a)) \<and> \<not> seenIn (userData s) c a j
                then 1 else 0))"
proof -
  obtain mails s1 where f: "fetchEmailsForAddress w a (ensureUser c s) = (mails, s1)"
    by (cases "fetchEmailsForAddress w a (ensureUser c s)")
  have mails: "mails = normalise (emailsResponse w a)"
    using fetchEmails_fst [of w a "ensureUser c s"] f by simp
  have u1: "userData s1 = userData (ensureUser c s)"
    using fetchEmails_userData [of w a "ensureUser c s"] f by simp
  have n1: "\<And>j. notified c a j s1 = notified c a j s"
    using fetchEmails_notified [of c a _ w a "ensureUser c s"] f by simp
  obtain u where "userData s1 c = Some u" using ensureUser_Some [of c s] u1 by auto
  from ensureSeen_Done [OF this na] obtain s2 where
    s2: "ensureSeen c a s1 = Done s2" "present c a s2"
      "\<And>c' a' j. seenIn (userData s2) c' a' j = seenIn (userData s1) c' a' j"
      "history s2 = history s1"
    by blast
  from mailLoop_Done [OF s2(2), of w mails] obtain s3 where
    s3: "mailLoop w c a s2 mails = Done s3" "present c a s3"
      "\<And>j. seenIn (userData s3) c a j = (seenIn (userData s2) c a j \<or> j \<in> mail_id ` set mails)"
      "\<And>j. notified c a j s3 = notified c a j s2 + (if j \<in> mail_id ` set mails \<and> \<not> seenIn (userData s2) c a j then 1 else 0)"
    by blast
  have r: "checkEmailInbox w c a s = s3"
    by (simp add: checkEmailInbox_def f s2(1) s3(1) caught_def)
  have n2: "\<And>j. notified c a j s2 = notified c a j s"
    using n1 s2(4) by (simp add: notified_def)
  have se: "\<And>j. seenIn (userData s2) c a j = seenIn (userData s) c a j"
    using s2(3) u1 by simp
  show ?thesis unfolding r using s3(2) s3(3) s3(4) n2 se mails by simp
qed

section \<open>What a poll cycle leaves alone\<close>

lemma seenIn_markAt:
  "seenIn d c a i = (markAt d c a i = Some True \<or> markAt d c a i = None \<and> inherited i)"
  by (auto simp: seenIn_def markAt_def truthy_def split: option.splits)

lemma untouched_refl [simp]: "untouched c a d d"
  by (simp add: untouched_def)

lemma untouched_trans: "untouched c a d d' \<Longrightarrow> untouched c a d' d'' \<Longrightarrow> untouched c a d d''"
  by (simp add: untouched_def)

lemma untouched_ensureUser: "untouched c a (userData s) (userData (ensureUser c s))"
  by (simp add: untouched_def ensureUser_def tracked_def marksOf_def split: option.splits)

lemma markAt_ensureUser [simp]: "markAt (userData (ensureUser c s)) c' a i = markAt (userData s) c' a i"
  by (simp add: ensureUser_def markAt_def marksOf_def split: option.splits)

lemma ensureSeen_frame:
  assumes "userData s c = Some u"
  shows "\<exists>s'. ensureSeen c a s = Done s' \<and> (\<not> inherited a \<longrightarrow> present c a s')
           \<and> untouched c a (userData s) (userData s')
           \<and> (\<forall>c' a' i. markAt (userData s') c' a' i = markAt (userData s) c' a' i)
           \<and> (present c a s \<longrightarrow> s' = s) \<and> (inherited a \<longrightarrow> s' = s)
           \<and> history s' = history s \<and> dataFile s' = dataFile s \<and> builtinMarks s' = builtinMarks s"
  using assms
  by (auto simp: ensureSeen_def present_def untouched_def tracked_def marksOf_def markAt_def split: option.splits)

lemma processMail_frame:
  assumes "present c a s"
  shows "\<exists>s'. processMail w c a s m = Done s' \<and> present c a s'
          \<and> untouched c a (userData s) (userData s')
          \<and> (\<forall>c' a' i. markAt (userData s') c' a' i =
                (if c' = c \<and> a' = a \<and> i = mail_id m \<and> \<not> seenIn (userData s) c a i then Some True
                 else markAt (userData s) c' a' i))
          \<and> (\<forall>j. seenIn (userData s') c a j = (seenIn (userData s) c a j \<or> j = mail_id m))
          \<and> builtinMarks s' = builtinMarks s"
proof -
  from assms obtain u marks where u: "userData s c = Some u" "seenEmails u a = Some marks"
    by (auto simp: present_def)
  have se: "seenIn (userData s) c a j = truthy marks j" for j
    using u by (simp add: seenIn_def marksOf_def)
  show ?thesis
  proof (cases "truthy marks (mail_id m)")
    case True
    then have "processMail w c a s m = Done s" using u by (simp add: processMail_def)
    then show ?thesis using assms True se by auto
  next
    case False
    let ?s' = "notifyNew w c a m (markSeen c a (mail_id m) u marks s)"
    have r: "processMail w c a s m = Done ?s'" using u False by (simp add: processMail_def)
    have p: "present c a ?s'" by (simp add: present_def userData_markSeen)
    have "untouched c a (userData s) (userData ?s')"
      using u by (simp add: untouched_def userData_markSeen tracked_def marksOf_def)
    moreover have "markAt (userData ?s') c' a' i =
        (if c' = c \<and> a' = a \<and> i = mail_id m \<and> \<not> truthy marks i then Some True
         else markAt (userData s) c' a' i)" for c' a' i
      using u False by (simp add: markAt_def marksOf_def userData_markSeen)
    moreover have "seenIn (userData ?s') c a j = (truthy marks j \<or> j = mail_id m)" for j
      by (simp add: seenIn_def marksOf_def userData_markSeen truthy_def)
    ultimately show ?thesis using r p se by simp
  qed
qed


lemma mailLoop_frame:
  assumes "present c a s"
  shows "\<exists>s'. mailLoop w c a s ms = Done s' \<and> present c a s'
          \<and> untouched c a (userData s) (userData s')
          \<and> (\<forall>c' a' i. markAt (userData s') c' a' i =
                (if c' = c \<and> a' = a \<and> i \<in> mail_id ` set ms \<and> \<not> seenIn (userData s) c a i then Some True
                 else markAt (userData s) c' a' i))
          \<and> (\<forall>j. seenIn (userData s') c a j = (seenIn (userData s) c a j \<or> j \<in> mail_id ` set ms))
          \<and> builtinMarks s' = builtinMarks s"
  using assms
proof (induction ms arbitrary: s)
  case Nil
  then show ?case by simp
next
  case (Cons m ms)
  from processMail_frame [OF Cons.prems, of w m] obtain s1 where
    s1: "processMail w c a s m = Done s1" "present c a s1"
      "untouched c a (userData s) (userData s1)"
      "\<And>c' a' i. markAt (userData s1) c' a' i =
          (if c' = c \<and> a' = a \<and> i = mail_id m \<and> \<not> seenIn (userData s) c a i then Some True
           else markAt (userData s) c' a' i)"
      "\<And>j. seenIn (userData s1) c a j = (seenIn (userData s) c a j \<or> j = mail_id m)"
      "builtinMarks s1 = builtinMarks s"
    by blast
  from Cons.IH [OF s1(2)] obtain s2 where
    s2: "mailLoop w c a s1 ms = Done s2" "present c a s2"
      "untouched c a (userData s1) (userData s2)"
      "\<And>c' a' i. markAt (userData s2) c' a' i =
          (if c' = c \<and> a' = a \<and> i \<in> mail_id ` set ms \<and> \<not> seenIn (userData s1) c a i then Some True
           else markAt (userData s1) c' a' i)"
      "\<And>j. seenIn (userData s2) c a j = (seenIn (userData s1) c a j \<or> j \<in> mail_id ` set ms)"
      "builtinMarks s2 = builtinMarks s1"
    by blast
  have "mailLoop w c a s (m # ms) = Done s2" using s1(1) s2(1) by simp
  moreover have "untouched c a (userData s) (userData s2)"
    using s1(3) s2(3) by (rule untouched_trans)
  moreover have "markAt (userData s2) c' a' i =
      (if c' = c \<and> a' = a \<and> i \<in> mail_id ` set (m # ms) \<and> \<not> seenIn (userData s) c a i then Some True
       else markAt (userData s) c' a' i)" for c' a' i
  proof (cases "c' = c \<and> a' = a")
    case False
    then show ?thesis using s2(4) [of c' a' i] s1(4) [of c' a' i] by auto
  next
    case True
    show ?thesis
    proof (cases "i = mail_id m")
      case True
      then show ?thesis using s2(4) [of c' a' i] s1(4) [of c' a' i] s1(5) [of i] by simp
    next
      case False
      then show ?thesis using s2(4) [of c' a' i] s1(4) [of c' a' i] s1(5) [of i] by simp
    qed
  qed
  moreover have "\<forall>j. seenIn (userData s2) c a j = (seenIn (userData s) c a j \<or> j \<in> mail_id ` set (m # ms))"
    using s1(5) s2(5) by auto
  moreover have "builtinMarks s2 = builtinMarks s" using s1(6) s2(6) by simp
  ultimately show ?case using s2(2) by blast
qed


lemma cycle_frame:
  assumes na: "\<not> inherited a"
  shows "untouched c a (userData s) (userData (checkEmailInbox w c a s))
   \<and> (\<forall>c' a' i. markAt (userData (checkEmailInbox w c a s)) c' a' i =
         (if c' = c \<and> a' = a \<and> i \<in> mail_id ` set (normalise (emailsResponse w a))
               \<and> \<not> seenIn (userData s) c a i
          then Some True else markAt (userData s) c' a' i))
   \<and> builtinMarks (checkEmailInbox w c a s) = builtinMarks s
   \<and> present c a (checkEmailInbox w c a s)"
proof -
  obtain mails s1 where f: "fetchEmailsForAddress w a (ensureUser c s) = (mails, s1)"
    by (cases "fetchEmailsForAddress w a (ensureUser c s)")
  have mails: "mails = normalise (emailsResponse w a)"
    using fetchEmails_fst [of w a "ensureUser c s"] f by simp
  have u1: "userData s1 = userData (ensureUser c s)"
    using fetchEmails_userData [of w a "ensureUser c s"] f by simp
  obtain u where "userData s1 c = Some u" using ensureUser_Some [of c s] u1 by auto
  from ensureSeen_frame [OF this, of a] na obtain s2 where
    s2: "ensureSeen c a s1 = Done s2" "present c a s2"
      "untouched c a (userData s1) (userData s2)"
      "\<And>c' a' i. markAt (userData s2) c' a' i = markAt (userData s1) c' a' i"
      "builtinMarks s2 = builtinMarks s1"
    by blast
  from mailLoop_frame [OF s2(2), of w mails] obtain s3 where
    s3: "mailLoop w c a s2 mails = Done s3"
      "untouched c a (userData s2) (userData s3)"
      "\<And>c' a' i. markAt (userData s3) c' a' i =
          (if c' = c \<and> a' = a \<and> i \<in> mail_id ` set mails \<and> \<not> seenIn (userData s2) c a i then Some True
           else markAt (userData s2) c' a' i)"
      "builtinMarks s3 = builtinMarks s2" "present c a s3"
    by blast
  have r: "checkEmailInbox w c a s = s3"
    by (simp add: checkEmailInbox_def f s2(1) s3(1) caught_def)
  have "untouched c a (userData s) (userData s1)"
    using untouched_ensureUser [of c a s] u1 by simp
  then have "untouched c a (userData s) (userData s3)"
    using s2(3) s3(2) untouched_trans by blast
  moreover have mk: "\<And>c' a' i. markAt (userData s2) c' a' i = markAt (userData s) c' a' i"
    using s2(4) u1 by simp
  moreover have "\<And>i. seenIn (userData s2) c a i = seenIn (userData s) c a i"
    using mk by (simp add: seenIn_markAt)
  moreover have "builtinMarks s3 = builtinMarks s"
    using s3(4) s2(5) fetchEmails_builtinMarks [of w a "ensureUser c s"] f by simp
  ultimately show ?thesis unfolding r using s3(3,5) mails by simp
qed

lemma ensureUser_present: "present c a s \<Longrightarrow> ensureUser c s = s"
  by (auto simp: present_def ensureUser_def)

lemma fetchEmails_snd:
  "snd (fetchEmailsForAddress w a s) =
     s\<lparr>history := history s @ (if emailsResponse w a = Failed then [Logged (FetchError a)] else [])\<rparr>"
  by (simp add: fetchEmailsForAddress_def logError_def split: response.splits)

lemma history_ensureUser [simp]: "history (ensureUser c s) = history s"
  and dataFile_ensureUser [simp]: "dataFile (ensureUser c s) = dataFile s"
  by (simp_all add: ensureUser_def split: option.splits)

lemma tracked_ensureUser [simp]: "tracked (userData (ensureUser c s)) c' = tracked (userData s) c'"
  by (simp add: ensureUser_def tracked_def split: option.splits)

lemma markAt_markSeen:
  assumes "userData s c = Some u" "seenEmails u a = Some marks"
  shows "markAt (userData (markSeen c a i u marks s)) c' a' j
           = (if c' = c \<and> a' = a \<and> j = i then Some True else markAt (userData s) c' a' j)"
  using assms by (simp add: markSeen_def markAt_def marksOf_def)

lemma tracked_markSeen:
  assumes "userData s c = Some u"
  shows "tracked (userData (markSeen c a i u marks s)) c' = tracked (userData s) c'"
  using assms by (simp add: markSeen_def tracked_def)

section \<open>The order of the events of a poll cycle\<close>

lemma quiet_simps [simp]:
  "quiet []" "quiet (e # t) = (\<not> isMarked e \<and> \<not> isSaved e \<and> \<not> isNewEmail e \<and> quiet t)"
  "quiet (t @ t') = (quiet t \<and> quiet t')"
  by (auto simp: quiet_def)

lemma unique_split:
  assumes "t1 @ x # t2 = pre @ e # post" "P e" "\<forall>y \<in> set t1. \<not> P y" "\<forall>y \<in> set t2. \<not> P y"
  shows "pre = t1 \<and> e = x \<and> post = t2"
  using assms by (auto simp: append_eq_append_conv2 append_eq_Cons_conv Cons_eq_append_conv)

lemma commitBeforeSend_quiet: "quiet t \<Longrightarrow> commitBeforeSend t"
  by (auto simp: commitBeforeSend_def quiet_def)

lemma savedAfterEachMark_quiet: "quiet t \<Longrightarrow> savedAfterEachMark t"
  by (auto simp: savedAfterEachMark_def quiet_def)

lemma fullSnapshots_quiet: "quiet t \<Longrightarrow> fullSnapshots d t"
  by (auto simp: fullSnapshots_def quiet_def)

lemma commitBeforeSend_append:
  assumes "commitBeforeSend t1" "commitBeforeSend t2"
  shows "commitBeforeSend (t1 @ t2)"
  unfolding commitBeforeSend_def
proof (intro allI impI)
  fix pre c a m ok post
  assume eq: "t1 @ t2 = pre @ Sent c (NewEmail a m) ok # post"
  then consider us where "t1 = pre @ us" "us @ t2 = Sent c (NewEmail a m) ok # post"
    | us where "t1 @ us = pre" "t2 = us @ Sent c (NewEmail a m) ok # post"
    by (auto simp: append_eq_append_conv2)
  then show "pre \<noteq> [] \<and> last pre = Marked c a (mail_id m)"
  proof cases
    case 1
    show ?thesis
    proof (cases us)
      case Nil
      with 1 have "t2 = [] @ Sent c (NewEmail a m) ok # post" by simp
      with assms(2) show ?thesis unfolding commitBeforeSend_def by blast
    next
      case (Cons u us')
      with 1 have "t1 = pre @ Sent c (NewEmail a m) ok # us'" by simp
      with assms(1) show ?thesis unfolding commitBeforeSend_def by blast
    qed
  next
    case 2
    with assms(2) have "us \<noteq> [] \<and> last us = Marked c a (mail_id m)"
      unfolding commitBeforeSend_def by blast
    with 2 show ?thesis by auto
  qed
qed

lemma savedAfterEachMark_append:
  assumes "savedAfterEachMark t1" "savedAfterEachMark t2"
  shows "savedAfterEachMark (t1 @ t2)"
  unfolding savedAfterEachMark_def
proof (intro allI impI)
  fix pre c a i post
  assume eq: "t1 @ t2 = pre @ Marked c a i # post"
  then consider us where "t1 = pre @ Marked c a i # us" "post = us @ t2"
    | us where "t1 @ us = pre" "t2 = us @ Marked c a i # post"
    by (auto simp: append_eq_append_conv2 append_eq_Cons_conv Cons_eq_append_conv)
  then show "\<exists>mid d ok rest. post = mid @ Saved d ok # rest \<and> (\<forall>e \<in> set mid. \<not> isMarked e)"
  proof cases
    case 1
    with assms(1) obtain mid d ok rest where "us = mid @ Saved d ok # rest" "\<forall>e \<in> set mid. \<not> isMarked e"
      unfolding savedAfterEachMark_def by blast
    with 1 have "post = mid @ Saved d ok # (rest @ t2)" by simp
    with \<open>\<forall>e \<in> set mid. \<not> isMarked e\<close> show ?thesis by blast
  next
    case 2
    with assms(2) show ?thesis unfolding savedAfterEachMark_def by blast
  qed
qed

lemma fullSnapshots_append:
  assumes "fullSnapshots d0 t1" "fullSnapshots d1 t2"
    and "\<And>c. tracked d1 c = tracked d0 c"
    and "\<And>c a i. markAt d1 c a i = (if Marked c a i \<in> set t1 then Some True else markAt d0 c a i)"
  shows "fullSnapshots d0 (t1 @ t2)"
  unfolding fullSnapshots_def
proof (intro allI impI)
  fix pre d ok post
  assume eq: "t1 @ t2 = pre @ Saved d ok # post"
  then consider us where "t1 = pre @ Saved d ok # us"
    | us where "t1 @ us = pre" "t2 = us @ Saved d ok # post"
    by (auto simp: append_eq_append_conv2 append_eq_Cons_conv Cons_eq_append_conv)
  then show "(\<forall>c. tracked d c = tracked d0 c)
      \<and> (\<forall>c a i. markAt d c a i = (if Marked c a i \<in> set pre then Some True else markAt d0 c a i))"
  proof cases
    case 1
    with assms(1) show ?thesis unfolding fullSnapshots_def by blast
  next
    case 2
    with assms(2) have "(\<forall>c. tracked d c = tracked d1 c)
      \<and> (\<forall>c a i. markAt d c a i = (if Marked c a i \<in> set us then Some True else markAt d1 c a i))"
      unfolding fullSnapshots_def by blast
    with 2 assms(3,4) show ?thesis by auto
  qed
qed

lemma fullSnapshots_marks:
  assumes "fullSnapshots d0 t" "t = pre @ Saved d r # post"
  shows "(markAt d c a i = Some True) = (markAt d0 c a i = Some True \<or> Marked c a i \<in> set pre)"
proof -
  from assms have "markAt d c a i = (if Marked c a i \<in> set pre then Some True else markAt d0 c a i)"
    unfolding fullSnapshots_def by blast
  then show ?thesis by simp
qed

lemma fileAfter_simps [simp]:
  "fileAfter f [] = f"
  "fileAfter f (e # t) = fileAfter (writeEvent f e) t"
  "fileAfter f (t @ t') = fileAfter (fileAfter f t) t'"
  by (simp_all add: fileAfter_def)

lemma fileAfter_quiet: "quiet t \<Longrightarrow> fileAfter f t = f"
proof (induction t arbitrary: f)
  case Nil
  show ?case by simp
next
  case (Cons e t)
  then show ?case by (cases e) simp_all
qed

lemma quiet_Marked: "quiet t \<Longrightarrow> Marked c a i \<notin> set t"
  by (auto simp: quiet_def)

lemma block_props:
  fixes ok :: bool and okw :: writeResult
  assumes q: "quiet q" and l: "quiet l"
    and d: "\<And>c' a' j. markAt d c' a' j
              = (if c' = c \<and> a' = a \<and> j = mail_id m then Some True else markAt d0 c' a' j)"
    and dt: "\<And>c'. tracked d c' = tracked d0 c'"
  defines "B \<equiv> Marked c a (mail_id m) # Sent c (NewEmail a m) ok # q @ Saved d okw # l"
  shows "commitBeforeSend B" "savedAfterEachMark B" "fullSnapshots d0 B"
    "\<And>c' a' j. (Marked c' a' j \<in> set B) = (c' = c \<and> a' = a \<and> j = mail_id m)"
    "fileAfter f B = writeEvent f (Saved d okw)"
proof -
  have nm: "\<forall>y \<in> set (q @ Saved d okw # l). \<not> isNewEmail y"
    and nk: "\<forall>y \<in> set (Sent c (NewEmail a m) ok # q @ Saved d okw # l). \<not> isMarked y"
    and ns1: "\<forall>y \<in> set (Marked c a (mail_id m) # Sent c (NewEmail a m) ok # q). \<not> isSaved y"
    and ns2: "\<forall>y \<in> set l. \<not> isSaved y"
    using q l by (auto simp: quiet_def)
  show "commitBeforeSend B"
    unfolding commitBeforeSend_def
  proof (intro allI impI)
    fix pre c' a' m' ok' post
    assume "B = pre @ Sent c' (NewEmail a' m') ok' # post"
    then have "[Marked c a (mail_id m)] @ Sent c (NewEmail a m) ok # (q @ Saved d okw # l)
                 = pre @ Sent c' (NewEmail a' m') ok' # post"
      by (simp add: B_def)
    from unique_split [OF this, of isNewEmail] nm
    have "pre = [Marked c a (mail_id m)] \<and> Sent c' (NewEmail a' m') ok' = Sent c (NewEmail a m) ok"
      by simp
    then show "pre \<noteq> [] \<and> last pre = Marked c' a' (mail_id m')" by simp
  qed
  show "savedAfterEachMark B"
    unfolding savedAfterEachMark_def
  proof (intro allI impI)
    fix pre c' a' i' post
    assume "B = pre @ Marked c' a' i' # post"
    then have "[] @ Marked c a (mail_id m) # (Sent c (NewEmail a m) ok # q @ Saved d okw # l)
                 = pre @ Marked c' a' i' # post"
      by (simp add: B_def)
    from unique_split [OF this, of isMarked] nk
    have "post = (Sent c (NewEmail a m) ok # q) @ Saved d okw # l" by simp
    moreover have "\<forall>e \<in> set (Sent c (NewEmail a m) ok # q). \<not> isMarked e" using nk by simp
    ultimately show "\<exists>mid d ok rest. post = mid @ Saved d ok # rest \<and> (\<forall>e \<in> set mid. \<not> isMarked e)"
      by blast
  qed
  show mk: "\<And>c' a' j. (Marked c' a' j \<in> set B) = (c' = c \<and> a' = a \<and> j = mail_id m)"
    using quiet_Marked [OF q] quiet_Marked [OF l] by (auto simp: B_def)
  show "fullSnapshots d0 B"
    unfolding fullSnapshots_def
  proof (intro allI impI)
    fix pre d' ok' post
    assume "B = pre @ Saved d' ok' # post"
    then have "(Marked c a (mail_id m) # Sent c (NewEmail a m) ok # q) @ Saved d okw # l
                 = pre @ Saved d' ok' # post"
      by (simp add: B_def)
    from unique_split [OF this, of isSaved] ns1 ns2
    have p: "pre = Marked c a (mail_id m) # Sent c (NewEmail a m) ok # q" and "d' = d" by simp_all
    have "\<And>c' a' j. (Marked c' a' j \<in> set pre) = (c' = c \<and> a' = a \<and> j = mail_id m)"
      using quiet_Marked [OF q] by (auto simp: p)
    then show "(\<forall>c'. tracked d' c' = tracked d0 c')
      \<and> (\<forall>c' a' j. markAt d' c' a' j = (if Marked c' a' j \<in> set pre then Some True else markAt d0 c' a' j))"
      using d dt \<open>d' = d\<close> by simp
  qed
  show "fileAfter f B = writeEvent f (Saved d okw)"
    using q l by (simp add: B_def fileAfter_quiet)
qed


lemma sendTelegram_trace:
  "\<exists>ok l. history (sendTelegram w c t s) = history s @ Sent c t ok # l \<and> quiet l"
  by (auto simp: sendTelegram_def)

lemma attLoop_trace:
  "\<exists>q. history (foldl (\<lambda>st att. sendTelegram w c (AttachmentInfo att) st) s atts) = history s @ q \<and> quiet q"
proof (induction atts arbitrary: s)
  case Nil
  show ?case by simp
next
  case (Cons att atts)
  obtain ok l where 1: "history (sendTelegram w c (AttachmentInfo att) s) = history s @ Sent c (AttachmentInfo att) ok # l" "quiet l"
    using sendTelegram_trace by blast
  obtain q where 2: "history (foldl (\<lambda>st att. sendTelegram w c (AttachmentInfo att) st) (sendTelegram w c (AttachmentInfo att) s) atts)
      = history (sendTelegram w c (AttachmentInfo att) s) @ q" "quiet q"
    using Cons.IH by blast
  have "quiet (Sent c (AttachmentInfo att) ok # l @ q)" using 1(2) 2(2) by simp
  then show ?case using 1(1) 2(1) by auto
qed

lemma sendAttachments_trace:
  "\<exists>q. history (sendAttachments w c a s) = history s @ q \<and> quiet q"
proof (cases "attachmentsResponse w a = Failed")
  case True
  obtain q where "history (foldl (\<lambda>st att. sendTelegram w c (AttachmentInfo att) st) (logError (AttachmentsError a) s) [])
      = history (logError (AttachmentsError a) s) @ q" "quiet q"
    using attLoop_trace by blast
  then show ?thesis using True
    by (simp add: sendAttachments_def fetchAttachmentsForAddress_def)
next
  case False
  obtain q where "history (foldl (\<lambda>st att. sendTelegram w c (AttachmentInfo att) st) s (normalise (attachmentsResponse w a)))
      = history s @ q" "quiet q"
    using attLoop_trace by blast
  then show ?thesis using False
    by (auto simp: sendAttachments_def fetchAttachmentsForAddress_def split: response.splits)
qed

lemma saveData_trace:
  "\<exists>r l. history (saveData w s) = history s @ Saved (userData s) r # l \<and> quiet l
        \<and> dataFile (saveData w s) = writeEvent (dataFile s) (Saved (userData s) r)"
  by (cases "written w (saveCount s)") (auto simp: saveData_def)

lemma processMail_trace:
  assumes "present c a s"
  shows "\<exists>s' t. processMail w c a s m = Done s' \<and> present c a s' \<and> history s' = history s @ t
          \<and> commitBeforeSend t \<and> savedAfterEachMark t \<and> fullSnapshots (userData s) t
          \<and> (\<forall>c'. tracked (userData s') c' = tracked (userData s) c')
          \<and> (\<forall>c' a' j. markAt (userData s') c' a' j
                 = (if Marked c' a' j \<in> set t then Some True else markAt (userData s) c' a' j))
          \<and> dataFile s' = fileAfter (dataFile s) t"
proof -
  from assms obtain u marks where u: "userData s c = Some u" "seenEmails u a = Some marks"
    by (auto simp: present_def)
  show ?thesis
  proof (cases "truthy marks (mail_id m)")
    case True
    then have "processMail w c a s m = Done s" using u by (simp add: processMail_def)
    moreover have "history s = history s @ []" "dataFile s = fileAfter (dataFile s) []" by simp_all
    moreover have "commitBeforeSend []" "savedAfterEachMark []" "fullSnapshots (userData s) []"
      by (simp_all add: commitBeforeSend_quiet savedAfterEachMark_quiet fullSnapshots_quiet)
    moreover have "\<forall>c' a' j. markAt (userData s) c' a' j
        = (if Marked c' a' j \<in> set [] then Some True else markAt (userData s) c' a' j)"
      by simp
    ultimately show ?thesis using assms by blast
  next
    case False
    let ?s1 = "markSeen c a (mail_id m) u marks s"
    let ?s2 = "sendTelegram w c (NewEmail a m) ?s1"
    let ?s3 = "if hasAttachments m then sendAttachments w c a ?s2 else ?s2"
    let ?s' = "saveData w ?s3"
    have r: "processMail w c a s m = Done ?s'"
      using u False by (simp add: processMail_def notifyNew_def Let_def)
    have h1: "history ?s1 = history s @ [Marked c a (mail_id m)]" by (simp add: markSeen_def)
    obtain ok l1 where h2: "history ?s2 = history ?s1 @ Sent c (NewEmail a m) ok # l1" "quiet l1"
      using sendTelegram_trace by blast
    obtain q where h3: "history ?s3 = history ?s2 @ q" "quiet q"
      using sendAttachments_trace [of w c a ?s2] by (cases "hasAttachments m") auto
    obtain okw l2 where h4: "history ?s' = history ?s3 @ Saved (userData ?s3) okw # l2" "quiet l2"
      "dataFile ?s' = writeEvent (dataFile ?s3) (Saved (userData ?s3) okw)"
      using saveData_trace by blast
    have u3: "userData ?s3 = userData ?s1" by simp
    have d3: "dataFile ?s3 = dataFile s" by (simp add: markSeen_def)
    let ?d = "userData ?s1"
    let ?B = "Marked c a (mail_id m) # Sent c (NewEmail a m) ok # (l1 @ q) @ Saved ?d okw # l2"
    have hist: "history ?s' = history s @ ?B"
      using h1 h2(1) h3(1) h4(1) u3 by simp
    have ql: "quiet (l1 @ q)" using h2(2) h3(2) by simp
    have sd: "\<And>c' a' j. markAt ?d c' a' j
        = (if c' = c \<and> a' = a \<and> j = mail_id m then Some True else markAt (userData s) c' a' j)"
      using markAt_markSeen [OF u] by simp
    have st: "\<And>c'. tracked ?d c' = tracked (userData s) c'"
      using tracked_markSeen [OF u(1)] by simp
    note bp = block_props [OF ql h4(2) sd st, where ok = ok and okw = okw]
    have "present c a ?s'" using u by (simp add: present_def userData_markSeen)
    moreover have "\<forall>c'. tracked (userData ?s') c' = tracked (userData s) c'"
      using st u3 by simp
    moreover have "\<forall>c' a' j. markAt (userData ?s') c' a' j
        = (if Marked c' a' j \<in> set ?B then Some True else markAt (userData s) c' a' j)"
      using sd bp(4) u3 by simp
    moreover have "dataFile ?s' = fileAfter (dataFile s) ?B"
      using h4(3) d3 u3 bp(5) [of "dataFile s"] by simp
    ultimately show ?thesis using r hist bp(1,2,3) by blast
  qed
qed

lemma mailLoop_trace:
  assumes "present c a s"
  shows "\<exists>s' t. mailLoop w c a s ms = Done s' \<and> present c a s' \<and> history s' = history s @ t
          \<and> commitBeforeSend t \<and> savedAfterEachMark t \<and> fullSnapshots (userData s) t
          \<and> (\<forall>c'. tracked (userData s') c' = tracked (userData s) c')
          \<and> (\<forall>c' a' j. markAt (userData s') c' a' j
                 = (if Marked c' a' j \<in> set t then Some True else markAt (userData s) c' a' j))
          \<and> dataFile s' = fileAfter (dataFile s) t"
  using assms
proof (induction ms arbitrary: s)
  case Nil
  have "commitBeforeSend []" "savedAfterEachMark []" "fullSnapshots (userData s) []"
    by (simp_all add: commitBeforeSend_quiet savedAfterEachMark_quiet fullSnapshots_quiet)
  moreover have "history s = history s @ []" "dataFile s = fileAfter (dataFile s) []" by simp_all
  moreover have "\<forall>c' a' j. markAt (userData s) c' a' j
      = (if Marked c' a' j \<in> set [] then Some True else markAt (userData s) c' a' j)"
    by simp
  moreover have "mailLoop w c a s [] = Done s" by simp
  ultimately show ?case using Nil.prems by blast
next
  case (Cons m ms)
  from processMail_trace [OF Cons.prems, of w m] obtain s1 t1 where
    1: "processMail w c a s m = Done s1" "present c a s1" "history s1 = history s @ t1"
      "commitBeforeSend t1" "savedAfterEachMark t1" "fullSnapshots (userData s) t1"
      "\<And>c'. tracked (userData s1) c' = tracked (userData s) c'"
      "\<And>c' a' j. markAt (userData s1) c' a' j
          = (if Marked c' a' j \<in> set t1 then Some True else markAt (userData s) c' a' j)"
      "dataFile s1 = fileAfter (dataFile s) t1"
    by blast
  from Cons.IH [OF 1(2)] obtain s2 t2 where
    2: "mailLoop w c a s1 ms = Done s2" "present c a s2" "history s2 = history s1 @ t2"
      "commitBeforeSend t2" "savedAfterEachMark t2" "fullSnapshots (userData s1) t2"
      "\<And>c'. tracked (userData s2) c' = tracked (userData s1) c'"
      "\<And>c' a' j. markAt (userData s2) c' a' j
          = (if Marked c' a' j \<in> set t2 then Some True else markAt (userData s1) c' a' j)"
      "dataFile s2 = fileAfter (dataFile s1) t2"
    by blast
  have "mailLoop w c a s (m # ms) = Done s2" using 1(1) 2(1) by simp
  moreover have "history s2 = history s @ (t1 @ t2)" using 1(3) 2(3) by simp
  moreover have "commitBeforeSend (t1 @ t2)" using 1(4) 2(4) by (rule commitBeforeSend_append)
  moreover have "savedAfterEachMark (t1 @ t2)" using 1(5) 2(5) by (rule savedAfterEachMark_append)
  moreover have "fullSnapshots (userData s) (t1 @ t2)"
    using 1(6) 2(6) 1(7) 1(8) by (rule fullSnapshots_append)
  moreover have "\<forall>c'. tracked (userData s2) c' = tracked (userData s) c'"
    using 1(7) 2(7) by simp
  moreover have "\<forall>c' a' j. markAt (userData s2) c' a' j
      = (if Marked c' a' j \<in> set (t1 @ t2) then Some True else markAt (userData s) c' a' j)"
    using 1(8) 2(8) by auto
  moreover have "dataFile s2 = fileAfter (dataFile s) (t1 @ t2)" using 1(9) 2(9) by simp
  ultimately show ?case using 2(2) by blast
qed

lemma writeEvent_cases:
  "writeEvent f e = f \<or> (\<exists>d. e = Saved d Complete \<and> writeEvent f e = Stored d)
     \<or> (\<exists>d. e = Saved d Torn \<and> writeEvent f e = Corrupt)"
proof (cases e)
  case (Saved d r)
  then show ?thesis by (cases r) simp_all
qed simp_all

lemma fileAfter_take_Suc:
  "fileAfter f (take (Suc k) t) = (if k < length t then writeEvent (fileAfter f (take k t)) (t ! k)
                                    else fileAfter f (take k t))"
  by (simp add: take_Suc_conv_app_nth)

lemma file_marks_in_memory:
  assumes fs: "fullSnapshots d0 t" and sub: "fileWithinMemory f d0"
  shows "storedMark (fileAfter f (take k t)) c a i
           \<Longrightarrow> markAt d0 c a i = Some True \<or> Marked c a i \<in> set (take k t)"
proof (induction k)
  case 0
  then show ?case using sub by (simp add: fileWithinMemory_def)
next
  case (Suc k)
  show ?case
  proof (cases "k < length t")
    case False
    then show ?thesis using Suc by simp
  next
    case True
    then have tk: "take (Suc k) t = take k t @ [t ! k]" by (simp add: take_Suc_conv_app_nth)
    have dec: "t = take k t @ t ! k # drop (Suc k) t" using True by (simp add: id_take_nth_drop)
    let ?F = "fileAfter f (take k t)"
    have F': "fileAfter f (take (Suc k) t) = writeEvent ?F (t ! k)"
      using True by (simp add: fileAfter_take_Suc)
    from writeEvent_cases [of ?F "t ! k"] show ?thesis
    proof (elim disjE exE conjE)
      assume "writeEvent ?F (t ! k) = ?F"
      then have "storedMark ?F c a i" using Suc.prems F' by simp
      from Suc.IH [OF this] show ?thesis by (auto simp: tk)
    next
      fix d assume e: "t ! k = Saved d Complete" and w: "writeEvent ?F (t ! k) = Stored d"
      from dec e have "t = take k t @ Saved d Complete # drop (Suc k) t" by simp
      from fullSnapshots_marks [OF fs this, of c a i] Suc.prems F' w
      show ?thesis by (auto simp: storedMark_def tk)
    next
      fix d assume "writeEvent ?F (t ! k) = Corrupt"
      then show ?thesis using Suc.prems F' by (simp add: storedMark_def)
    qed
  qed
qed

lemma neverLost_fullSnapshots:
  assumes fs: "fullSnapshots d0 t" and sub: "fileWithinMemory f d0"
  shows "neverLost f t"
proof -
  let ?F = "\<lambda>k. fileAfter f (take k t)"
  have step: "storedMark (?F (k + n)) c a i \<or> ?F (k + n) = Corrupt"
    if k: "storedMark (?F k) c a i" for k n c a i
  proof (induction n)
    case 0
    show ?case using k by simp
  next
    case (Suc n)
    from file_marks_in_memory [OF fs sub k]
    have mem: "markAt d0 c a i = Some True \<or> Marked c a i \<in> set (take (k + n) t)"
      using set_take_subset_set_take [of k "k + n" t] by auto
    show ?case
    proof (cases "k + n < length t")
      case False
      then show ?thesis using Suc by simp
    next
      case True
      have dec: "t = take (k + n) t @ t ! (k + n) # drop (Suc (k + n)) t"
        using True by (simp add: id_take_nth_drop)
      have F': "?F (Suc (k + n)) = writeEvent (?F (k + n)) (t ! (k + n))"
        using True by (simp add: fileAfter_take_Suc)
      from writeEvent_cases [of "?F (k + n)" "t ! (k + n)"] show ?thesis
      proof (elim disjE exE conjE)
        assume "writeEvent (?F (k + n)) (t ! (k + n)) = ?F (k + n)"
        then show ?thesis using Suc F' by simp
      next
        fix d assume e: "t ! (k + n) = Saved d Complete"
          and w: "writeEvent (?F (k + n)) (t ! (k + n)) = Stored d"
        from dec e have "t = take (k + n) t @ Saved d Complete # drop (Suc (k + n)) t" by simp
        from fullSnapshots_marks [OF fs this, of c a i] mem
        have "storedMark (Stored d) c a i" by (simp add: storedMark_def)
        then show ?thesis using F' w by simp
      next
        fix d assume "writeEvent (?F (k + n)) (t ! (k + n)) = Corrupt"
        then show ?thesis using F' by simp
      qed
    qed
  qed
  show ?thesis
    unfolding neverLost_def
  proof (intro allI impI)
    fix k k' c a i
    assume "k \<le> k'" and "storedMark (?F k) c a i"
    then show "storedMark (?F k') c a i \<or> ?F k' = Corrupt"
      using step [of k c a i "k' - k"] by simp
  qed
qed

lemma unreadableOnlyTorn_holds: "unreadableOnlyTorn f t"
  unfolding unreadableOnlyTorn_def
proof
  fix k
  show "fileAfter f (take k t) = Corrupt \<longrightarrow> f = Corrupt \<or> (\<exists>e \<in> set (take k t). isTorn e)"
  proof (induction k)
    case 0
    show ?case by simp
  next
    case (Suc k)
    show ?case
    proof (cases "k < length t")
      case False
      then show ?thesis using Suc by simp
    next
      case True
      then have tk: "take (Suc k) t = take k t @ [t ! k]" by (simp add: take_Suc_conv_app_nth)
      have F': "fileAfter f (take (Suc k) t) = writeEvent (fileAfter f (take k t)) (t ! k)"
        using True by (simp add: fileAfter_take_Suc)
      from writeEvent_cases [of "fileAfter f (take k t)" "t ! k"] show ?thesis
      proof (elim disjE exE conjE)
        assume "writeEvent (fileAfter f (take k t)) (t ! k) = fileAfter f (take k t)"
        then show ?thesis using Suc F' by (auto simp: tk)
      next
        fix d assume "writeEvent (fileAfter f (take k t)) (t ! k) = Stored d"
        then show ?thesis using F' by simp
      next
        fix d assume "t ! k = Saved d Torn"
        then show ?thesis by (auto simp: tk)
      qed
    qed
  qed
qed

lemma file_within_memory_after:
  assumes fs: "fullSnapshots d0 t" and sub: "fileWithinMemory f d0"
    and mk: "\<And>c a i. markAt d1 c a i = (if Marked c a i \<in> set t then Some True else markAt d0 c a i)"
  shows "fileWithinMemory (fileAfter f t) d1"
  unfolding fileWithinMemory_def
proof (intro allI impI)
  fix c a i
  assume "storedMark (fileAfter f t) c a i"
  then have "storedMark (fileAfter f (take (length t) t)) c a i" by simp
  from file_marks_in_memory [OF fs sub this] show "markAt d1 c a i = Some True"
    by (auto simp: mk)
qed


lemma fetchEmails_trace:
  "\<exists>q. history (snd (fetchEmailsForAddress w a s)) = history s @ q \<and> quiet q
       \<and> userData (snd (fetchEmailsForAddress w a s)) = userData s
       \<and> dataFile (snd (fetchEmailsForAddress w a s)) = dataFile s"
  by (auto simp: fetchEmailsForAddress_def split: response.splits)


lemma cycle_trace:
  assumes na: "\<not> inherited a"
  shows "\<exists>t. history (checkEmailInbox w c a s) = history s @ t
      \<and> commitBeforeSend t \<and> savedAfterEachMark t \<and> fullSnapshots (userData s) t
      \<and> (\<forall>c' a' j. markAt (userData (checkEmailInbox w c a s)) c' a' j
                     = (if Marked c' a' j \<in> set t then Some True else markAt (userData s) c' a' j))
      \<and> dataFile (checkEmailInbox w c a s) = fileAfter (dataFile s) t"
proof -
  obtain mails s1 where f: "fetchEmailsForAddress w a (ensureUser c s) = (mails, s1)"
    by (cases "fetchEmailsForAddress w a (ensureUser c s)")
  from fetchEmails_trace [of w a "ensureUser c s"] f obtain q where
    q: "history s1 = history s @ q" "quiet q" "userData s1 = userData (ensureUser c s)" "dataFile s1 = dataFile s"
    by auto
  obtain u where "userData s1 c = Some u" using ensureUser_Some [of c s] q(3) by auto
  from ensureSeen_frame [OF this, of a] na obtain s2 where
    s2: "ensureSeen c a s1 = Done s2" "present c a s2"
      "untouched c a (userData s1) (userData s2)"
      "\<And>c' a' j. markAt (userData s2) c' a' j = markAt (userData s1) c' a' j"
      "history s2 = history s1" "dataFile s2 = dataFile s1"
    by blast
  from mailLoop_trace [OF s2(2), of w mails] obtain s3 t where
    3: "mailLoop w c a s2 mails = Done s3" "history s3 = history s2 @ t"
      "commitBeforeSend t" "savedAfterEachMark t" "fullSnapshots (userData s2) t"
      "\<And>c' a' j. markAt (userData s3) c' a' j
          = (if Marked c' a' j \<in> set t then Some True else markAt (userData s2) c' a' j)"
      "dataFile s3 = fileAfter (dataFile s2) t"
    by blast
  have r: "checkEmailInbox w c a s = s3"
    by (simp add: checkEmailInbox_def f s2(1) 3(1) caught_def)
  have se: "\<And>c' a' j. markAt (userData s2) c' a' j = markAt (userData s) c' a' j"
    using s2(4) q(3) by simp
  have tr: "\<And>c'. tracked (userData s2) c' = tracked (userData s) c'"
    using s2(3) q(3) by (simp add: untouched_def)
  have nq: "\<And>c' a' j. Marked c' a' j \<notin> set q" using quiet_Marked [OF q(2)] by simp
  have "history s3 = history s @ (q @ t)" using 3(2) s2(5) q(1) by simp
  moreover have "commitBeforeSend (q @ t)"
    using commitBeforeSend_quiet [OF q(2)] 3(3) by (rule commitBeforeSend_append)
  moreover have "savedAfterEachMark (q @ t)"
    using savedAfterEachMark_quiet [OF q(2)] 3(4) by (rule savedAfterEachMark_append)
  moreover have "fullSnapshots (userData s) (q @ t)"
    using fullSnapshots_quiet [OF q(2)] 3(5) by (rule fullSnapshots_append) (simp_all add: se tr nq)
  moreover have "\<forall>c' a' j. markAt (userData s3) c' a' j
      = (if Marked c' a' j \<in> set (q @ t) then Some True else markAt (userData s) c' a' j)"
    using 3(6) se nq by simp
  moreover have "dataFile s3 = fileAfter (dataFile s) (q @ t)"
    using 3(7) s2(6) q(4) fileAfter_quiet [OF q(2)] by simp
  ultimately show ?thesis unfolding r by blast
qed

section \<open>The file after a poll cycle\<close>

lemma dataFile_saveData:
  "dataFile (saveData w s)
     = (case written w (saveCount s) of Complete \<Rightarrow> Stored (userData s) | Refused \<Rightarrow> dataFile s | Torn \<Rightarrow> Corrupt)"
  by (simp add: saveData_def split: writeResult.splits)

lemma processMail_synced:
  assumes "present c a s" "\<forall>n. written w n = Complete"
  shows "\<exists>s'. processMail w c a s m = Done s' \<and> present c a s'
          \<and> (if seenIn (userData s) c a (mail_id m) then s' = s else dataFile s' = Stored (userData s'))"
proof -
  from assms(1) obtain u marks where u: "userData s c = Some u" "seenEmails u a = Some marks"
    by (auto simp: present_def)
  have se: "seenIn (userData s) c a (mail_id m) = truthy marks (mail_id m)"
    using u by (simp add: seenIn_def marksOf_def)
  show ?thesis
  proof (cases "truthy marks (mail_id m)")
    case True
    then show ?thesis using u assms(1) se by (simp add: processMail_def)
  next
    case False
    then show ?thesis using u assms(2) se
      by (simp add: processMail_def notifyNew_def Let_def dataFile_saveData present_def userData_markSeen)
  qed
qed

lemma mailLoop_synced:
  assumes "present c a s" "\<forall>n. written w n = Complete"
    and "dataFile s = Stored (userData s) \<or> (\<exists>m \<in> set ms. \<not> seenIn (userData s) c a (mail_id m))"
  shows "\<exists>s'. mailLoop w c a s ms = Done s' \<and> dataFile s' = Stored (userData s')"
  using assms
proof (induction ms arbitrary: s)
  case Nil
  then show ?case by simp
next
  case (Cons m ms)
  from processMail_synced [OF Cons.prems(1,2), of m] obtain s1 where
    1: "processMail w c a s m = Done s1" "present c a s1"
      "if seenIn (userData s) c a (mail_id m) then s1 = s else dataFile s1 = Stored (userData s1)"
    by blast
  have "dataFile s1 = Stored (userData s1) \<or> (\<exists>m \<in> set ms. \<not> seenIn (userData s1) c a (mail_id m))"
    using 1(3) Cons.prems(3) by (cases "seenIn (userData s) c a (mail_id m)") auto
  from Cons.IH [OF 1(2) Cons.prems(2) this] 1(1) show ?case by simp
qed

lemma cycle_synced:
  assumes "\<forall>n. written w n = Complete" "i \<in> mail_id ` set (normalise (emailsResponse w a))"
    "\<not> seenIn (userData s) c a i" and na: "\<not> inherited a"
  shows "dataFile (checkEmailInbox w c a s) = Stored (userData (checkEmailInbox w c a s))"
proof -
  obtain mails s1 where f: "fetchEmailsForAddress w a (ensureUser c s) = (mails, s1)"
    by (cases "fetchEmailsForAddress w a (ensureUser c s)")
  have mails: "mails = normalise (emailsResponse w a)"
    using fetchEmails_fst [of w a "ensureUser c s"] f by simp
  have u1: "userData s1 = userData (ensureUser c s)"
    using fetchEmails_userData [of w a "ensureUser c s"] f by simp
  obtain u where "userData s1 c = Some u" using ensureUser_Some [of c s] u1 by auto
  from ensureSeen_Done [OF this na] obtain s2 where
    s2: "ensureSeen c a s1 = Done s2" "present c a s2"
      "\<And>c' a' j. seenIn (userData s2) c' a' j = seenIn (userData s1) c' a' j"
    by blast
  have "\<not> seenIn (userData s2) c a i" using s2(3) u1 assms(3) by simp
  then have "\<exists>m \<in> set mails. \<not> seenIn (userData s2) c a (mail_id m)"
    using assms(2) mails by auto
  from mailLoop_synced [OF s2(2) assms(1), of mails] this obtain s3 where
    s3: "mailLoop w c a s2 mails = Done s3" "dataFile s3 = Stored (userData s3)"
    by blast
  have "checkEmailInbox w c a s = s3"
    by (simp add: checkEmailInbox_def f s2(1) s3(1) caught_def)
  then show ?thesis using s3(2) by simp
qed

lemma notified_restart [simp]: "notified c a i (restart s) = notified c a i s"
  by (simp add: restart_def notified_def split: datafile.splits)

section \<open>Poll cycles from states that look the same\<close>

lemma sameRun_refl [simp]: "sameRun s s"
  by (simp add: sameRun_def)

lemma sameRun_sendCount: "sameRun s s' \<Longrightarrow> sendCount s = sendCount s'"
  by (simp add: sameRun_def sendCount_def)

lemma sameRun_sendTelegram:
  "sameRun s s' \<Longrightarrow> sameRun (sendTelegram w c t s) (sendTelegram w c t s')"
  using sameRun_sendCount [of s s']
  by (simp add: sameRun_def sendTelegram_def saveCount_def)

lemma sameRun_saveData:
  "sameRun s s' \<Longrightarrow> sameRun (saveData w s) (saveData w s')"
  by (simp add: sameRun_def saveData_def saveCount_def split: writeResult.splits)

lemma sameRun_logError_left: "sameRun s s' \<Longrightarrow> sameRun (logError l s) s'"
  and sameRun_logError_right: "sameRun s s' \<Longrightarrow> sameRun s (logError l s')"
  by (simp_all add: sameRun_def logError_def saveCount_def)

lemma sameRun_attLoop:
  "sameRun s s' \<Longrightarrow>
   sameRun (foldl (\<lambda>st att. sendTelegram w c (AttachmentInfo att) st) s atts)
           (foldl (\<lambda>st att. sendTelegram w c (AttachmentInfo att) st) s' atts)"
  by (induction atts arbitrary: s s') (simp_all add: sameRun_sendTelegram)

lemma sameRun_sendAttachments:
  "sameRun s s' \<Longrightarrow> sameRun (sendAttachments w c a s) (sendAttachments w c a s')"
  by (auto simp: sendAttachments_def fetchAttachmentsForAddress_def
      intro!: sameRun_attLoop sameRun_logError_left sameRun_logError_right split: response.splits)

lemma sameRun_notifyNew:
  "sameRun s s' \<Longrightarrow> sameRun (notifyNew w c a m s) (notifyNew w c a m s')"
  by (simp add: notifyNew_def Let_def sameRun_sendTelegram sameRun_sendAttachments sameRun_saveData)

lemma sameRun_ensureUser: "sameRun s s' \<Longrightarrow> sameRun (ensureUser c s) (ensureUser c s')"
  by (simp add: sameRun_def saveCount_def)

lemma sameRun_markSeen:
  assumes "sameRun s s'" "userData s c = Some u" "seenEmails u a = Some marks"
    "userData s' c = Some u'" "seenEmails u' a = Some marks'"
  shows "sameRun (markSeen c a i u marks s) (markSeen c a i u' marks' s')"
proof -
  have "filter isSent (history (markSeen c a i u marks s)) = filter isSent (history (markSeen c a i u' marks' s'))"
    and "saveCount (markSeen c a i u marks s) = saveCount (markSeen c a i u' marks' s')"
    using assms(1) by (simp_all add: sameRun_def markSeen_def saveCount_def)
  moreover have "\<forall>c' a' j. markAt (userData (markSeen c a i u marks s)) c' a' j
                     = markAt (userData (markSeen c a i u' marks' s')) c' a' j"
    using assms(1) by (simp add: markAt_markSeen [OF assms(2,3)] markAt_markSeen [OF assms(4,5)] sameRun_def)
  moreover have "\<forall>c'. tracked (userData (markSeen c a i u marks s)) c'
                     = tracked (userData (markSeen c a i u' marks' s')) c'"
    using assms(1) by (simp add: tracked_markSeen [OF assms(2)] tracked_markSeen [OF assms(4)] sameRun_def)
  ultimately show ?thesis by (simp add: sameRun_def)
qed

lemma sameRun_processMail:
  assumes "sameRun s s'" "present c a s" "present c a s'"
  shows "\<exists>t t'. processMail w c a s m = Done t \<and> processMail w c a s' m = Done t'
           \<and> present c a t \<and> present c a t' \<and> sameRun t t'"
proof -
  from assms(2) obtain u marks where u: "userData s c = Some u" "seenEmails u a = Some marks"
    by (auto simp: present_def)
  from assms(3) obtain u' marks' where u': "userData s' c = Some u'" "seenEmails u' a = Some marks'"
    by (auto simp: present_def)
  have "markAt (userData s) c a (mail_id m) = markAt (userData s') c a (mail_id m)"
    using assms(1) by (simp add: sameRun_def)
  then have "marks (mail_id m) = marks' (mail_id m)"
    using u u' by (simp add: markAt_def marksOf_def)
  then have eq: "truthy marks (mail_id m) = truthy marks' (mail_id m)"
    by (simp add: truthy_def)
  show ?thesis
  proof (cases "truthy marks (mail_id m)")
    case True
    then show ?thesis using u u' eq assms by (simp add: processMail_def)
  next
    case False
    let ?s1 = "markSeen c a (mail_id m) u marks s" and ?s1' = "markSeen c a (mail_id m) u' marks' s'"
    have "sameRun ?s1 ?s1'" using assms(1) u u' by (rule sameRun_markSeen)
    then have "sameRun (notifyNew w c a m ?s1) (notifyNew w c a m ?s1')" by (rule sameRun_notifyNew)
    moreover have "processMail w c a s m = Done (notifyNew w c a m ?s1)"
      using u False by (simp add: processMail_def)
    moreover have "processMail w c a s' m = Done (notifyNew w c a m ?s1')"
      using u' False eq by (simp add: processMail_def)
    moreover have "present c a (notifyNew w c a m ?s1)" "present c a (notifyNew w c a m ?s1')"
      by (simp_all add: present_def userData_markSeen)
    ultimately show ?thesis by simp
  qed
qed

lemma sameRun_mailLoop:
  assumes "sameRun s s'" "present c a s" "present c a s'"
  shows "\<exists>t t'. mailLoop w c a s ms = Done t \<and> mailLoop w c a s' ms = Done t' \<and> sameRun t t'"
  using assms
proof (induction ms arbitrary: s s')
  case Nil
  then show ?case by simp
next
  case (Cons m ms)
  from sameRun_processMail [OF Cons.prems, of w m] obtain t t' where
    1: "processMail w c a s m = Done t" "processMail w c a s' m = Done t'"
      "present c a t" "present c a t'" "sameRun t t'"
    by blast
  from Cons.IH [OF 1(5,3,4)] 1(1,2) show ?case by simp
qed

lemma sameRun_trans: "sameRun s s' \<Longrightarrow> sameRun s' s'' \<Longrightarrow> sameRun s s''"
  by (simp add: sameRun_def)

lemma pollAllEmailsForUser_sweep:
  "pollAllEmailsForUser w c s
     = foldl (\<lambda>st b. checkEmailInbox w c b st) (ensureUser c s) (tracked (userData s) c)"
  by (simp add: pollAllEmailsForUser_def Let_def tracked_def [symmetric])

text \<open>
  The same for states that are alike, at every address: where the address is an inherited
  name without an entry of its own, both cycles go through the built-in function in step.
\<close>

lemma alike_refl [simp]: "alike s s"
  by (simp add: alike_def)

lemma alike_sameRun: "alike s s' \<Longrightarrow> sameRun s s'"
  by (simp add: alike_def)

lemma alike_trans: "alike s s' \<Longrightarrow> alike s' s'' \<Longrightarrow> alike s s''"
  by (auto simp: alike_def intro: sameRun_trans)

lemma present_marksOf: "present c a s = (marksOf (userData s) c a \<noteq> None)"
  by (auto simp: present_def marksOf_def split: option.splits)

lemma marksOf_ensureUser [simp]: "marksOf (userData (ensureUser c s)) c' a = marksOf (userData s) c' a"
  by (simp add: ensureUser_def marksOf_def split: option.splits)

lemma untouched_entries_other:
  assumes "untouched c a d d'" "a' \<noteq> a"
  shows "(marksOf d' c' a' = None) = (marksOf d c' a' = None)"
  using assms by (cases "c' = c") (simp_all add: untouched_def marksOf_def)

lemma untouched_entries:
  assumes "untouched c a d d'" "marksOf d c a \<noteq> None" "marksOf d' c a \<noteq> None"
  shows "(marksOf d' c' a' = None) = (marksOf d c' a' = None)"
proof (cases "a' = a \<and> c' = c")
  case True
  then show ?thesis using assms(2,3) by auto
next
  case False
  then show ?thesis using assms(1) by (cases "c' = c") (auto simp: untouched_def marksOf_def)
qed

lemma alike_notifyNew:
  "alike s s' \<Longrightarrow> alike (notifyNew w c a m s) (notifyNew w c a m s')"
  by (simp add: alike_def sameRun_notifyNew)

lemma alike_mailLoop_present:
  assumes "alike s s'" "present c a s" "present c a s'"
  shows "\<exists>t t'. mailLoop w c a s ms = Done t \<and> mailLoop w c a s' ms = Done t' \<and> alike t t'"
proof -
  from sameRun_mailLoop [OF alike_sameRun [OF assms(1)] assms(2,3), of w ms] obtain t t' where
    1: "mailLoop w c a s ms = Done t" "mailLoop w c a s' ms = Done t'" "sameRun t t'"
    by blast
  from mailLoop_frame [OF assms(2), of w ms] 1(1)
  have f: "present c a t" "untouched c a (userData s) (userData t)" "builtinMarks t = builtinMarks s"
    by auto
  from mailLoop_frame [OF assms(3), of w ms] 1(2)
  have f': "present c a t'" "untouched c a (userData s') (userData t')" "builtinMarks t' = builtinMarks s'"
    by auto
  have e: "(marksOf (userData t) c' a' = None) = (marksOf (userData s) c' a' = None)" for c' a'
    using f(1) assms(2) by (intro untouched_entries [OF f(2)]) (simp_all add: present_marksOf)
  have e': "(marksOf (userData t') c' a' = None) = (marksOf (userData s') c' a' = None)" for c' a'
    using f'(1) assms(3) by (intro untouched_entries [OF f'(2)]) (simp_all add: present_marksOf)
  have "alike t t'"
    using assms(1) 1(3) f(3) f'(3) e e' by (simp add: alike_def)
  with 1(1,2) show ?thesis by blast
qed

lemma alike_processMail_builtin:
  assumes al: "alike s s'" and ia: "inherited a"
    and u: "userData s c = Some u" "seenEmails u a = None"
    and u': "userData s' c = Some u'" "seenEmails u' a = None"
  shows "(\<exists>t t'. processMail w c a s m = Done t \<and> processMail w c a s' m = Done t'
             \<and> alike t t' \<and> userData t = userData s \<and> userData t' = userData s')
       \<or> (\<exists>t t'. processMail w c a s m = Beyond t \<and> processMail w c a s' m = Beyond t' \<and> alike t t')"
proof -
  have b: "builtinMarks s = builtinMarks s'" using al by (simp add: alike_def)
  consider "a = ''__proto__'' \<or> engineProps w a (mail_id m)"
    | "\<not> (a = ''__proto__'' \<or> engineProps w a (mail_id m))" "builtinMarks s a (mail_id m)"
    | "\<not> (a = ''__proto__'' \<or> engineProps w a (mail_id m))" "\<not> builtinMarks s a (mail_id m)"
    by blast
  then show ?thesis
  proof cases
    case 1
    have "alike (outside c a (mail_id m) s) (outside c a (mail_id m) s')"
      using al by (simp add: alike_def outside_def sameRun_def saveCount_def)
    then show ?thesis using 1 ia u u' by (simp add: processMail_def)
  next
    case 2
    then show ?thesis using ia u u' al b by (simp add: processMail_def)
  next
    case 3
    have "alike (markBuiltin c a (mail_id m) s) (markBuiltin c a (mail_id m) s')"
      using al by (simp add: alike_def markBuiltin_def sameRun_def saveCount_def)
    then have "alike (notifyNew w c a m (markBuiltin c a (mail_id m) s))
                     (notifyNew w c a m (markBuiltin c a (mail_id m) s'))"
      by (rule alike_notifyNew)
    moreover have "userData (markBuiltin c a (mail_id m) s) = userData s"
      "userData (markBuiltin c a (mail_id m) s') = userData s'"
      by (simp_all add: markBuiltin_def)
    ultimately show ?thesis using 3 ia u u' b by (simp add: processMail_def)
  qed
qed

lemma alike_mailLoop_builtin:
  assumes "alike s s'" and ia: "inherited a"
    and "userData s c = Some u" "seenEmails u a = None"
    and "userData s' c = Some u'" "seenEmails u' a = None"
  shows "alike (caught a (mailLoop w c a s ms)) (caught a (mailLoop w c a s' ms))"
  using assms(1,3-)
proof (induction ms arbitrary: s s')
  case Nil
  then show ?case by (simp add: caught_def)
next
  case (Cons m ms)
  from alike_processMail_builtin [OF Cons.prems(1) ia Cons.prems(2-), of w m] show ?case
  proof (elim disjE exE conjE)
    fix t t'
    assume 1: "processMail w c a s m = Done t" "processMail w c a s' m = Done t'" "alike t t'"
      "userData t = userData s" "userData t' = userData s'"
    have "alike (caught a (mailLoop w c a t ms)) (caught a (mailLoop w c a t' ms))"
      using Cons.IH [OF 1(3)] Cons.prems(2-) 1(4,5) by simp
    then show ?thesis using 1(1,2) by simp
  next
    fix t t'
    assume "processMail w c a s m = Beyond t" "processMail w c a s' m = Beyond t'" "alike t t'"
    then show ?thesis by (simp add: caught_def)
  qed
qed

lemma alike_fetch:
  assumes "alike s s'"
  shows "alike (snd (fetchEmailsForAddress w a (ensureUser c s))) (snd (fetchEmailsForAddress w a (ensureUser c s')))"
proof -
  have "sameRun (ensureUser c s) (ensureUser c s')"
    using assms by (simp add: alike_def sameRun_ensureUser)
  then have "sameRun (snd (fetchEmailsForAddress w a (ensureUser c s))) (snd (fetchEmailsForAddress w a (ensureUser c s')))"
    unfolding fetchEmails_snd by (simp add: sameRun_def saveCount_def)
  then show ?thesis using assms by (simp add: alike_def)
qed

lemma alike_cycle:
  assumes "alike s s'"
  shows "alike (checkEmailInbox w c a s) (checkEmailInbox w c a s')"
proof -
  define s1 where "s1 = snd (fetchEmailsForAddress w a (ensureUser c s))"
  define s1' where "s1' = snd (fetchEmailsForAddress w a (ensureUser c s'))"
  define mails where "mails = normalise (emailsResponse w a)"
  have f: "fetchEmailsForAddress w a (ensureUser c s) = (mails, s1)"
    and f': "fetchEmailsForAddress w a (ensureUser c s') = (mails, s1')"
    by (simp_all add: s1_def s1'_def mails_def prod_eq_iff)
  have al1: "alike s1 s1'" unfolding s1_def s1'_def using assms by (rule alike_fetch)
  obtain u where u: "userData s1 c = Some u"
    using ensureUser_Some [of c s] by (auto simp: s1_def)
  obtain u' where u': "userData s1' c = Some u'"
    using ensureUser_Some [of c s'] by (auto simp: s1'_def)
  from ensureSeen_frame [OF u, of a] obtain s2 where
    s2: "ensureSeen c a s1 = Done s2" "\<not> inherited a \<longrightarrow> present c a s2"
      "untouched c a (userData s1) (userData s2)"
      "\<And>c' a' i. markAt (userData s2) c' a' i = markAt (userData s1) c' a' i"
      "present c a s1 \<longrightarrow> s2 = s1" "inherited a \<longrightarrow> s2 = s1"
      "history s2 = history s1" "builtinMarks s2 = builtinMarks s1"
    by blast
  from ensureSeen_frame [OF u', of a] obtain s2' where
    s2': "ensureSeen c a s1' = Done s2'" "\<not> inherited a \<longrightarrow> present c a s2'"
      "untouched c a (userData s1') (userData s2')"
      "\<And>c' a' i. markAt (userData s2') c' a' i = markAt (userData s1') c' a' i"
      "present c a s1' \<longrightarrow> s2' = s1'" "inherited a \<longrightarrow> s2' = s1'"
      "history s2' = history s1'" "builtinMarks s2' = builtinMarks s1'"
    by blast
  have r: "checkEmailInbox w c a s = caught a (mailLoop w c a s2 mails)"
    "checkEmailInbox w c a s' = caught a (mailLoop w c a s2' mails)"
    by (simp_all add: checkEmailInbox_def f f' s2(1) s2'(1))
  show ?thesis
  proof (cases "inherited a")
    case False
    have sr: "sameRun s2 s2'"
      using alike_sameRun [OF al1] s2(3,4,7) s2'(3,4,7)
      by (simp add: sameRun_def untouched_def saveCount_def)
    have "(marksOf (userData s2) c' a' = None) = (marksOf (userData s2') c' a' = None)"
      if "inherited a'" for c' a'
    proof -
      from that False have "a' \<noteq> a" by auto
      then show ?thesis
        using untouched_entries_other [OF s2(3), of a' c'] untouched_entries_other [OF s2'(3), of a' c'] al1 that
        by (simp add: alike_def)
    qed
    then have "alike s2 s2'"
      using sr al1 s2(8) s2'(8) by (simp add: alike_def)
    from alike_mailLoop_present [OF this, of c a w mails] s2(2) s2'(2) False
    show ?thesis unfolding r by (auto simp: caught_def)
  next
    case True
    then have e: "s2 = s1" "s2' = s1'" using s2(6) s2'(6) by simp_all
    have pp: "present c a s1 = present c a s1'"
      using al1 True by (simp add: alike_def present_marksOf)
    show ?thesis
    proof (cases "present c a s1")
      case True
      from alike_mailLoop_present [OF al1 True, of w mails] pp True
      show ?thesis unfolding r e by (auto simp: caught_def)
    next
      case False
      then have "seenEmails u a = None" "seenEmails u' a = None"
        using pp u u' by (auto simp: present_def)
      from alike_mailLoop_builtin [OF al1 True u this(1) u' this(2)]
      show ?thesis unfolding r e .
    qed
  qed
qed

lemma alike_sweep:
  "alike s s' \<Longrightarrow>
   alike (foldl (\<lambda>st b. checkEmailInbox w c b st) s bs) (foldl (\<lambda>st b. checkEmailInbox w c b st) s' bs)"
  by (induction bs arbitrary: s s') (simp_all add: alike_cycle)

lemma failed_fetch_alike:
  assumes "normalise (emailsResponse w a) = []"
  shows "alike (checkEmailInbox w c a s) s"
proof -
  define s1 where "s1 = snd (fetchEmailsForAddress w a (ensureUser c s))"
  have f: "fetchEmailsForAddress w a (ensureUser c s) = ([], s1)"
    using assms by (simp add: s1_def prod_eq_iff)
  have "sameRun (ensureUser c s) s"
    by (simp add: sameRun_def saveCount_def)
  then have "sameRun s1 s"
    unfolding s1_def fetchEmails_snd by (simp add: sameRun_def saveCount_def)
  then have r1: "alike s1 s" by (simp add: alike_def s1_def)
  obtain u where "userData s1 c = Some u"
    using ensureUser_Some [of c s] by (auto simp: s1_def)
  from ensureSeen_frame [OF this, of a] obtain s2 where
    s2: "ensureSeen c a s1 = Done s2" "untouched c a (userData s1) (userData s2)"
      "\<And>c' a' i. markAt (userData s2) c' a' i = markAt (userData s1) c' a' i"
      "inherited a \<longrightarrow> s2 = s1"
      "history s2 = history s1" "builtinMarks s2 = builtinMarks s1"
    by blast
  have "(marksOf (userData s2) c' a' = None) = (marksOf (userData s1) c' a' = None)"
    if "inherited a'" for c' a'
  proof (cases "inherited a")
    case True
    then show ?thesis using s2(4) by simp
  next
    case False
    with that have "a' \<noteq> a" by auto
    then show ?thesis using untouched_entries_other [OF s2(2), of a' c'] by simp
  qed
  then have "alike s2 s1"
    using s2(2,3,5,6) by (simp add: alike_def sameRun_def untouched_def saveCount_def)
  then have "alike s2 s" using r1 by (rule alike_trans)
  moreover have "checkEmailInbox w c a s = s2"
    by (simp add: checkEmailInbox_def f s2(1) caught_def)
  ultimately show ?thesis by simp
qed

section \<open>Failed sends and failed writes in a poll cycle of bot.js\<close>

text \<open>
  Two worlds whose provider answers agree, whatever their sends and writes do: a poll cycle
  for an address that is not an inherited name attempts the same messages in the same order
  and leaves the same marks in both. A failed send or write stops nothing.
\<close>

lemma sameAttempts_refl [simp]: "sameAttempts s s"
  by (simp add: sameAttempts_def)

lemma sameAttempts_sendTelegram:
  "sameAttempts s s' \<Longrightarrow> sameAttempts (sendTelegram w c t s) (sendTelegram w' c t s')"
  by (simp add: sameAttempts_def sendTelegram_def attempts_def)

lemma sameAttempts_saveData:
  "sameAttempts s s' \<Longrightarrow> sameAttempts (saveData w s) (saveData w' s')"
  by (simp add: sameAttempts_def saveData_def attempts_def split: writeResult.splits)

lemma sameAttempts_logError_left: "sameAttempts s s' \<Longrightarrow> sameAttempts (logError l s) s'"
  and sameAttempts_logError_right: "sameAttempts s s' \<Longrightarrow> sameAttempts s (logError l s')"
  by (simp_all add: sameAttempts_def logError_def attempts_def)

lemma sameAttempts_attLoop:
  "sameAttempts s s' \<Longrightarrow>
   sameAttempts (foldl (\<lambda>st att. sendTelegram w c (AttachmentInfo att) st) s atts)
           (foldl (\<lambda>st att. sendTelegram w' c (AttachmentInfo att) st) s' atts)"
  by (induction atts arbitrary: s s') (simp_all add: sameAttempts_sendTelegram)

lemma sameAttempts_sendAttachments:
  "attachmentsResponse w' = attachmentsResponse w \<Longrightarrow> sameAttempts s s' \<Longrightarrow>
   sameAttempts (sendAttachments w c a s) (sendAttachments w' c a s')"
  by (auto simp: sendAttachments_def fetchAttachmentsForAddress_def
      intro!: sameAttempts_attLoop sameAttempts_logError_left sameAttempts_logError_right
      split: response.splits)

lemma sameAttempts_markSeen:
  assumes "sameAttempts s s'" "userData s c = Some u" "seenEmails u a = Some marks"
    "userData s' c = Some u'" "seenEmails u' a = Some marks'"
  shows "sameAttempts (markSeen c a i u marks s) (markSeen c a i u' marks' s')"
proof -
  have "attempts (markSeen c a i u marks s) = attempts (markSeen c a i u' marks' s')"
    using assms(1) by (simp add: sameAttempts_def markSeen_def attempts_def)
  moreover have "\<forall>c' a' j. markAt (userData (markSeen c a i u marks s)) c' a' j
                     = markAt (userData (markSeen c a i u' marks' s')) c' a' j"
    using assms(1) by (simp add: markAt_markSeen [OF assms(2,3)] markAt_markSeen [OF assms(4,5)] sameAttempts_def)
  moreover have "\<forall>c'. tracked (userData (markSeen c a i u marks s)) c'
                     = tracked (userData (markSeen c a i u' marks' s')) c'"
    using assms(1) by (simp add: tracked_markSeen [OF assms(2)] tracked_markSeen [OF assms(4)] sameAttempts_def)
  ultimately show ?thesis by (simp add: sameAttempts_def)
qed

lemma sameAttempts_processMail:
  assumes "attachmentsResponse w' = attachmentsResponse w"
    and "sameAttempts s s'" "present c a s" "present c a s'"
  shows "\<exists>t t'. processMail w c a s m = Done t \<and> processMail w' c a s' m = Done t'
           \<and> present c a t \<and> present c a t' \<and> sameAttempts t t'"
proof -
  from assms(3) obtain u marks where u: "userData s c = Some u" "seenEmails u a = Some marks"
    by (auto simp: present_def)
  from assms(4) obtain u' marks' where u': "userData s' c = Some u'" "seenEmails u' a = Some marks'"
    by (auto simp: present_def)
  have "markAt (userData s) c a (mail_id m) = markAt (userData s') c a (mail_id m)"
    using assms(2) by (simp add: sameAttempts_def)
  then have "marks (mail_id m) = marks' (mail_id m)"
    using u u' by (simp add: markAt_def marksOf_def)
  then have eq: "truthy marks (mail_id m) = truthy marks' (mail_id m)"
    by (simp add: truthy_def)
  show ?thesis
  proof (cases "truthy marks (mail_id m)")
    case True
    then show ?thesis using u u' eq assms by (simp add: processMail_def)
  next
    case False
    let ?s1 = "markSeen c a (mail_id m) u marks s" and ?s1' = "markSeen c a (mail_id m) u' marks' s'"
    let ?s2 = "sendTelegram w c (NewEmail a m) ?s1" and ?s2' = "sendTelegram w' c (NewEmail a m) ?s1'"
    let ?s3 = "if hasAttachments m then sendAttachments w c a ?s2 else ?s2"
    let ?s3' = "if hasAttachments m then sendAttachments w' c a ?s2' else ?s2'"
    have "sameAttempts ?s1 ?s1'" using assms(2) u u' by (rule sameAttempts_markSeen)
    then have "sameAttempts ?s2 ?s2'" by (rule sameAttempts_sendTelegram)
    then have "sameAttempts ?s3 ?s3'" using assms(1) by (simp add: sameAttempts_sendAttachments)
    then have "sameAttempts (saveData w ?s3) (saveData w' ?s3')" by (rule sameAttempts_saveData)
    moreover have "processMail w c a s m = Done (saveData w ?s3)"
      using u False by (simp add: processMail_def notifyNew_def Let_def)
    moreover have "processMail w' c a s' m = Done (saveData w' ?s3')"
      using u' False eq by (simp add: processMail_def notifyNew_def Let_def)
    moreover have "present c a (saveData w ?s3)" "present c a (saveData w' ?s3')"
      using u u' by (simp_all add: present_def userData_markSeen)
    ultimately show ?thesis by simp
  qed
qed

lemma sameAttempts_mailLoop:
  assumes "attachmentsResponse w' = attachmentsResponse w"
    and "sameAttempts s s'" "present c a s" "present c a s'"
  shows "\<exists>t t'. mailLoop w c a s ms = Done t \<and> mailLoop w' c a s' ms = Done t' \<and> sameAttempts t t'"
  using assms(2-)
proof (induction ms arbitrary: s s')
  case Nil
  then show ?case by simp
next
  case (Cons m ms)
  from sameAttempts_processMail [OF assms(1) Cons.prems, of m] obtain t t' where
    1: "processMail w c a s m = Done t" "processMail w' c a s' m = Done t'"
      "present c a t" "present c a t'" "sameAttempts t t'"
    by blast
  from Cons.IH [OF 1(5,3,4)] 1(1,2) show ?case by simp
qed

lemma sameAttempts_ensureSeen:
  assumes "sameAttempts s s'" "userData s c = Some u" "userData s' c = Some u'" and na: "\<not> inherited a"
  shows "\<exists>t t'. ensureSeen c a s = Done t \<and> ensureSeen c a s' = Done t'
           \<and> present c a t \<and> present c a t' \<and> sameAttempts t t'"
proof -
  from ensureSeen_frame [OF assms(2), of a] na obtain t where
    t: "ensureSeen c a s = Done t" "present c a t" "untouched c a (userData s) (userData t)"
      "\<And>c' a' i. markAt (userData t) c' a' i = markAt (userData s) c' a' i"
      "history t = history s"
    by blast
  from ensureSeen_frame [OF assms(3), of a] na obtain t' where
    t': "ensureSeen c a s' = Done t'" "present c a t'" "untouched c a (userData s') (userData t')"
      "\<And>c' a' i. markAt (userData t') c' a' i = markAt (userData s') c' a' i"
      "history t' = history s'"
    by blast
  have "sameAttempts t t'"
    using assms(1) t(3,4,5) t'(3,4,5) by (simp add: sameAttempts_def untouched_def attempts_def)
  with t(1,2) t'(1,2) show ?thesis by blast
qed

lemma failed_sends_absorbed:
  assumes "emailsResponse w' = emailsResponse w" "attachmentsResponse w' = attachmentsResponse w"
    and na: "\<not> inherited a"
  shows "attempts (checkEmailInbox w c a s) = attempts (checkEmailInbox w' c a s)
     \<and> (\<forall>c' a' i. markAt (userData (checkEmailInbox w c a s)) c' a' i
                    = markAt (userData (checkEmailInbox w' c a s)) c' a' i)"
proof -
  obtain mails s1 where f: "fetchEmailsForAddress w a (ensureUser c s) = (mails, s1)"
    by (cases "fetchEmailsForAddress w a (ensureUser c s)")
  obtain mails' s1' where f': "fetchEmailsForAddress w' a (ensureUser c s) = (mails', s1')"
    by (cases "fetchEmailsForAddress w' a (ensureUser c s)")
  have m: "mails = mails'"
    using fetchEmails_fst [of w a "ensureUser c s"] fetchEmails_fst [of w' a "ensureUser c s"] f f' assms(1)
    by simp
  have s1: "s1 = snd (fetchEmailsForAddress w a (ensureUser c s))"
    and s1': "s1' = snd (fetchEmailsForAddress w' a (ensureUser c s))"
    using f f' by simp_all
  have r1: "sameAttempts s1 s1'"
    unfolding s1 s1' fetchEmails_snd by (simp add: sameAttempts_def attempts_def assms(1))
  obtain u where u: "userData s1 c = Some u"
    using ensureUser_Some [of c s] fetchEmails_userData [of w a "ensureUser c s"] f by auto
  obtain u' where u': "userData s1' c = Some u'"
    using ensureUser_Some [of c s] fetchEmails_userData [of w' a "ensureUser c s"] f' by auto
  from sameAttempts_ensureSeen [OF r1 u u' na] obtain s2 s2' where
    2: "ensureSeen c a s1 = Done s2" "ensureSeen c a s1' = Done s2'"
      "present c a s2" "present c a s2'" "sameAttempts s2 s2'"
    by blast
  from sameAttempts_mailLoop [OF assms(2) 2(5,3,4), of mails] obtain s3 s3' where
    3: "mailLoop w c a s2 mails = Done s3" "mailLoop w' c a s2' mails = Done s3'" "sameAttempts s3 s3'"
    by blast
  have "checkEmailInbox w c a s = s3" "checkEmailInbox w' c a s = s3'"
    by (simp_all add: checkEmailInbox_def f f' 2(1,2) 3(1,2) caught_def m [symmetric])
  with 3(3) show ?thesis by (simp add: sameAttempts_def)
qed

section \<open>The command handlers of bot.js\<close>

text \<open>
  \<^verbatim>\<open>/import\<close> appends only addresses that are not tracked yet, each once, and the count it
  reports is the number of addresses it appended. \<^verbatim>\<open>/add\<close> and \<^verbatim>\<open>/import\<close> keep a
  list without duplicates free of them, and \<^verbatim>\<open>/add\<close> of a tracked address changes nothing.
  \<^verbatim>\<open>/delete\<close> removes the address from the list and deletes its seen entry. \<^verbatim>\<open>/new\<close> appends
  one address, made of at most eight characters of the first draw and one of the domains.
\<close>

lemma importLoop_appends:
  "importLoop es tr n = (tr', n') \<Longrightarrow>
   \<exists>new. tr' = tr @ new \<and> n' = n + length new \<and> set new = set es - set tr \<and> distinct new"
proof (induction es arbitrary: tr n)
  case Nil
  then show ?case by simp
next
  case (Cons e es)
  show ?case
  proof (cases "e \<in> set tr")
    case True
    with Cons.prems have "importLoop es tr n = (tr', n')" by simp
    from Cons.IH [OF this] True show ?thesis by auto
  next
    case False
    with Cons.prems have "importLoop es (tr @ [e]) (Suc n) = (tr', n')" by simp
    from Cons.IH [OF this] obtain new where
      new: "tr' = (tr @ [e]) @ new" "n' = Suc n + length new" "set new = set es - set (tr @ [e])" "distinct new"
      by blast
    have "tr' = tr @ (e # new)" "n' = n + length (e # new)" using new(1,2) by simp_all
    moreover have "set (e # new) = set (e # es) - set tr" using new(3) False by auto
    moreover have "distinct (e # new)" using new(3,4) by auto
    ultimately show ?thesis by blast
  qed
qed

lemma tracked_setUser: "tracked (userData (setUser c u s)) c' = (if c' = c then emails u else tracked (userData s) c')"
  by (simp add: setUser_def tracked_def)

lemma ensureUser_tracked:
  "\<exists>u. userData (ensureUser c s) c = Some u \<and> emails u = tracked (userData s) c
       \<and> seenEmails u = (case userData s c of None \<Rightarrow> Map.empty | Some v \<Rightarrow> seenEmails v)"
  by (simp add: ensureUser_def tracked_def split: option.splits)

lemma userData_ensureUser_other: "c' \<noteq> c \<Longrightarrow> userData (ensureUser c s) c' = userData s c'"
  by (simp add: ensureUser_def split: option.splits)

lemma onImport_reports_added:
  "\<exists>s' new t. onImport w c text s = Done s'
     \<and> tracked (userData s') c = tracked (userData s) c @ new
     \<and> distinct new \<and> set new \<inter> set (tracked (userData s) c) = {}
     \<and> history s' = history s @ t
     \<and> (\<forall>k n ok. Sent c (Imported k n) ok \<in> set t \<longrightarrow> k = length new \<and> n = length (tracked (userData s') c))"
proof -
  obtain u where u: "userData (ensureUser c s) c = Some u" "emails u = tracked (userData s) c"
    using ensureUser_tracked by blast
  define s1 where "s1 = ensureUser c s"
  define parts where "parts = take 2 (splitSpaces (trim text))"
  define es where "es = filter (\<lambda>e. e \<noteq> []) (map trim (splitOn (CHR '','') (parts ! 1)))"
  have unf: "onImport w c text s =
      (if length parts < 2 then Done (sendTelegram w c UsageImport s1)
       else if length es = 0 then Done (sendTelegram w c InvalidImport s1)
       else (case importLoop es (emails u) 0 of
               (tr, n) \<Rightarrow> Done (sendTelegram w c (Imported n (length tr))
                                 (saveData w (setUser c (u\<lparr>emails := tr\<rparr>) s1)))))"
    unfolding onImport_def Let_def s1_def [symmetric] parts_def [symmetric] es_def [symmetric]
    using u(1) by (simp add: s1_def)
  have t1: "tracked (userData s1) c = tracked (userData s) c" and h1: "history s1 = history s"
    by (simp_all add: s1_def)
  consider "length parts < 2" | "\<not> length parts < 2" "length es = 0" | "\<not> length parts < 2" "length es \<noteq> 0"
    by blast
  then show ?thesis
  proof cases
    case 1
    then have "onImport w c text s = Done (sendTelegram w c UsageImport s1)" using unf by simp
    then show ?thesis
      using t1 h1 by (auto simp: history_sendTelegram intro!: exI [of _ "[]"])
  next
    case 2
    then have "onImport w c text s = Done (sendTelegram w c InvalidImport s1)" using unf by simp
    then show ?thesis
      using t1 h1 by (auto simp: history_sendTelegram intro!: exI [of _ "[]"])
  next
    case 3
    obtain tr n where il: "importLoop es (emails u) 0 = (tr, n)"
      by (cases "importLoop es (emails u) 0")
    from importLoop_appends [OF il] obtain new where
      new: "tr = emails u @ new" "n = length new" "set new = set es - set (emails u)" "distinct new"
      by auto
    define s2 where "s2 = saveData w (setUser c (u\<lparr>emails := tr\<rparr>) s1)"
    define s' where "s' = sendTelegram w c (Imported n (length tr)) s2"
    have r: "onImport w c text s = Done s'"
      using 3 il unf by (simp add: s'_def s2_def)
    have tr: "tracked (userData s') c = tracked (userData s) c @ new"
      using new(1) u(2) by (simp add: s'_def s2_def tracked_setUser)
    have "\<exists>l. history s2 = history s @ l \<and> (\<forall>e \<in> set l. \<not> isSent e)"
      using h1 by (simp add: s2_def history_saveData setUser_def)
    then obtain l where l: "history s2 = history s @ l" "\<forall>e \<in> set l. \<not> isSent e" by blast
    have "\<exists>ok l'. history s' = history s2 @ Sent c (Imported n (length tr)) ok # l' \<and> (\<forall>e \<in> set l'. \<not> isSent e)"
      by (simp add: s'_def history_sendTelegram)
    then obtain ok l' where l': "history s' = history s2 @ Sent c (Imported n (length tr)) ok # l'"
        "\<forall>e \<in> set l'. \<not> isSent e"
      by blast
    have h: "history s' = history s @ (l @ Sent c (Imported n (length tr)) ok # l')"
      using l(1) l'(1) by simp
    have only: "\<forall>k n' ok'. Sent c (Imported k n') ok' \<in> set (l @ Sent c (Imported n (length tr)) ok # l')
                  \<longrightarrow> k = n \<and> n' = length tr"
      using l(2) l'(2) by auto
    have "set new \<inter> set (tracked (userData s) c) = {}" using new(3) u(2) by auto
    moreover have "length (tracked (userData s') c) = length tr" using tr new(1) u(2) by simp
    ultimately show ?thesis using r tr new(2,4) h only by (metis (no_types, lifting))
  qed
qed


lemma marksOf_setUser:
  "marksOf (userData (setUser c u s)) c' a = (if c' = c then seenEmails u a else marksOf (userData s) c' a)"
  by (simp add: setUser_def marksOf_def)

lemma userData_setUser_other: "c' \<noteq> c \<Longrightarrow> userData (setUser c u s) c' = userData s c'"
  by (simp add: setUser_def)

lemma onAdd_keeps_distinct:
  "\<exists>s'. onAdd w c text s = Done s'
     \<and> (tracked (userData s') c = tracked (userData s) c
         \<or> (\<exists>e. e \<notin> set (tracked (userData s) c) \<and> tracked (userData s') c = tracked (userData s) c @ [e]))
     \<and> (distinct (tracked (userData s) c) \<longrightarrow> distinct (tracked (userData s') c))
     \<and> (2 \<le> length (splitSpaces (trim text))
          \<and> trim (splitSpaces (trim text) ! 1) \<in> set (tracked (userData s) c)
        \<longrightarrow> userData s' = userData s)"
proof -
  obtain u where u: "userData (ensureUser c s) c = Some u" "emails u = tracked (userData s) c"
    using ensureUser_tracked by blast
  define s1 where "s1 = ensureUser c s"
  define parts where "parts = splitSpaces (trim text)"
  define email where "email = trim (parts ! 1)"
  have unf: "onAdd w c text s =
      (if length parts < 2 then Done (sendTelegram w c UsageAdd s1)
       else if email \<notin> set (emails u)
       then Done (sendTelegram w c (NowTracking email) (saveData w (setUser c (u\<lparr>emails := emails u @ [email]\<rparr>) s1)))
       else Done (sendTelegram w c (AlreadyTracking email) s1))"
    unfolding onAdd_def Let_def s1_def [symmetric] parts_def [symmetric] email_def [symmetric]
    using u(1) by (simp add: s1_def)
  have t1: "tracked (userData s1) c = tracked (userData s) c" by (simp add: s1_def)
  have same: "tracked (userData s) c \<noteq> [] \<Longrightarrow> userData s1 = userData s"
    by (auto simp: s1_def ensureUser_def tracked_def split: option.splits)
  consider "length parts < 2" | "\<not> length parts < 2" "email \<in> set (emails u)"
    | "\<not> length parts < 2" "email \<notin> set (emails u)"
    by blast
  then show ?thesis
  proof cases
    case 1
    then have "onAdd w c text s = Done (sendTelegram w c UsageAdd s1)" using unf by simp
    then show ?thesis using t1 1 by (simp add: parts_def)
  next
    case 2
    then have "onAdd w c text s = Done (sendTelegram w c (AlreadyTracking email) s1)" using unf by simp
    moreover have "tracked (userData s) c \<noteq> []" using 2(2) u(2) by auto
    then have "userData s1 = userData s" by (rule same)
    ultimately show ?thesis using t1 by simp
  next
    case 3
    then have "onAdd w c text s
        = Done (sendTelegram w c (NowTracking email) (saveData w (setUser c (u\<lparr>emails := emails u @ [email]\<rparr>) s1)))"
      using unf by simp
    then show ?thesis using 3 u(2) by (simp add: tracked_setUser parts_def email_def)
  qed
qed

lemma onImport_keeps_distinct:
  "\<exists>s'. onImport w c text s = Done s'
     \<and> (distinct (tracked (userData s) c) \<longrightarrow> distinct (tracked (userData s') c))"
  using onImport_reports_added [of w c "text" s] by auto

lemma onDelete_forgets:
  assumes "2 \<le> length (splitSpaces (trim text))"
  defines "email \<equiv> trim (splitSpaces (trim text) ! 1)"
  shows "\<exists>s'. onDelete w c text s = Done s'
     \<and> tracked (userData s') c = filter (\<lambda>e. e \<noteq> email) (tracked (userData s) c)
     \<and> marksOf (userData s') c email = None
     \<and> (\<forall>a. a \<noteq> email \<longrightarrow> marksOf (userData s') c a = marksOf (userData s) c a)
     \<and> (\<forall>c'. c' \<noteq> c \<longrightarrow> userData s' c' = userData s c')
     \<and> (written w (saveCount s) = Complete \<longrightarrow> dataFile s' = Stored (userData s'))"
proof -
  obtain u where u: "userData (ensureUser c s) c = Some u" "emails u = tracked (userData s) c"
    "seenEmails u = (case userData s c of None \<Rightarrow> Map.empty | Some v \<Rightarrow> seenEmails v)"
    using ensureUser_tracked by blast
  define s1 where "s1 = ensureUser c s"
  define s2 where "s2 = saveData w (setUser c (forget email u) s1)"
  have "onDelete w c text s = Done (sendTelegram w c (Stopped email) s2)
        \<or> onDelete w c text s = Done (sendTelegram w c (NotFound email) s2)"
    using assms(1) u(1) by (simp add: onDelete_def Let_def s1_def s2_def email_def)
  then obtain x where r: "onDelete w c text s = Done (sendTelegram w c x s2)" by blast
  have m: "marksOf (userData s) c a = seenEmails u a" for a
    using u(3) by (simp add: marksOf_def split: option.splits)
  have sc: "saveCount (setUser c (forget email u) s1) = saveCount s"
    by (simp add: saveCount_def setUser_def s1_def)
  have "tracked (userData s2) c = filter (\<lambda>e. e \<noteq> email) (tracked (userData s) c)"
    using u(2) by (simp add: s2_def tracked_setUser forget_def)
  moreover have "marksOf (userData s2) c email = None"
    by (simp add: s2_def marksOf_setUser forget_def)
  moreover have "\<forall>a. a \<noteq> email \<longrightarrow> marksOf (userData s2) c a = marksOf (userData s) c a"
    by (simp add: s2_def marksOf_setUser forget_def m)
  moreover have "\<forall>c'. c' \<noteq> c \<longrightarrow> userData s2 c' = userData s c'"
    by (simp add: s2_def s1_def userData_setUser_other userData_ensureUser_other)
  moreover have "written w (saveCount s) = Complete \<longrightarrow> dataFile s2 = Stored (userData s2)"
    by (simp add: s2_def dataFile_saveData sc)
  ultimately show ?thesis using r by simp
qed

lemma onNew_appends:
  assumes "normalise (domainsResponse w) \<noteq> []" "0 \<le> randomUnit w" "randomUnit w < 1"
  shows "\<exists>s' d. onNew w c s = Done s' \<and> d \<in> set (normalise (domainsResponse w))
     \<and> tracked (userData s') c = tracked (userData s) c @ [take 8 (drop 2 (random36 w)) @ ''@'' @ d]
     \<and> length (take 8 (drop 2 (random36 w))) \<le> 8
     \<and> (8 \<le> length (drop 2 (random36 w)) \<longrightarrow> length (take 8 (drop 2 (random36 w))) = 8)
     \<and> (\<forall>c'. c' \<noteq> c \<longrightarrow> userData s' c' = userData s c')
     \<and> (written w (saveCount s) = Complete \<longrightarrow> dataFile s' = Stored (userData s'))"
proof -
  obtain u where u: "userData (ensureUser c s) c = Some u" "emails u = tracked (userData s) c"
    using ensureUser_tracked by blast
  define domains where "domains = normalise (domainsResponse w)"
  define s1 where "s1 = snd (getDomains w (ensureUser c s))"
  have g: "getDomains w (ensureUser c s) = (domains, s1)"
    by (simp add: getDomains_def s1_def domains_def normalise_def split: response.splits)
  have u1: "userData s1 = userData (ensureUser c s)" and sc1: "saveCount s1 = saveCount s"
    by (simp_all add: s1_def getDomains_def saveCount_def split: response.splits)
  define k where "k = \<lfloor>randomUnit w * of_nat (length domains)\<rfloor>"
  have n: "0 < length domains" using assms(1) by (simp add: domains_def)
  have "randomUnit w * of_nat (length domains) < of_nat (length domains)"
    using assms(3) n by simp
  then have k1: "k < int (length domains)" unfolding k_def by (simp add: floor_less_iff)
  have k0: "0 \<le> k" unfolding k_def using assms(2) by simp
  define d where "d = domains ! nat k"
  have k2: "nat k < length domains" using k0 k1 by linarith
  have din: "d \<in> set domains" unfolding d_def using k2 by simp
  have gen: "generateRandomEmail w domains = take 8 (drop 2 (random36 w)) @ ''@'' @ d"
    using k0 k2 by (simp add: generateRandomEmail_def Let_def k_def [symmetric] d_def)
  define s2 where "s2 = saveData w (setUser c (u\<lparr>emails := emails u @ [generateRandomEmail w domains]\<rparr>) s1)"
  have r: "onNew w c s = Done (sendTelegram w c (Created (generateRandomEmail w domains)) s2)"
    using g n u(1) u1 by (simp add: onNew_def Let_def s2_def)
  have "tracked (userData s2) c = tracked (userData s) c @ [take 8 (drop 2 (random36 w)) @ ''@'' @ d]"
    using u(2) gen by (simp add: s2_def tracked_setUser)
  moreover have "\<forall>c'. c' \<noteq> c \<longrightarrow> userData s2 c' = userData s c'"
    by (simp add: s2_def u1 userData_setUser_other userData_ensureUser_other)
  moreover have "written w (saveCount s) = Complete \<longrightarrow> dataFile s2 = Stored (userData s2)"
    by (simp add: s2_def dataFile_saveData saveCount_def setUser_def sc1 [unfolded saveCount_def])
  ultimately show ?thesis using r din by (simp add: domains_def)
qed

section \<open>The claims\<close>

text \<open>The definitions a run on a concrete input unfolds.\<close>

lemmas ev = checkEmailInbox_def fetchEmailsForAddress_def ensureUser_def ensureSeen_def caught_def
  processMail_def notifyNew_def markSeen_def markBuiltin_def outside_def truthy_def inherited_def
  sendTelegram_def saveData_def sendAttachments_def
  fetchAttachmentsForAddress_def sendCount_def saveCount_def logError_def normalise_def Let_def
  exampleEnv_def downEnv_def flakyEnv_def tornEnv_def oddEnv_def functionProps_def
  syncedBot_def exampleStore_def freshBot_def oddBot_def oddStore_def mailA_def mailB_def mailC_def

lemmas hd_ev = ensureUser_def setUser_def sendTelegram_def saveData_def sendMessage_def sendCount_def
  saveCount_def logError_def normalise_def Let_def trim_def isSpace_def forget_def getDomains_def
  generateRandomEmail_def tracked_def marksOf_def
  exampleEnv_def halfEnv_def collidingEnv_def syncedBot_def exampleStore_def freshBot_def




text \<open>
  C2, as stated, fails: when the fetch fails for an address that was never polled, the cycle
  still creates the empty seen entry of that address (the statement after the fetch that
  makes sure the entry exists), so the state of the address does change.
\<close>

theorem failed_fetch_mutates_counterexample:
  "normalise (emailsResponse downEnv ''x@a.test'') = []
   \<and> marksOf (userData syncedBot) 8 ''x@a.test'' = None
   \<and> marksOf (userData (checkEmailInbox downEnv 8 ''x@a.test'' syncedBot)) 8 ''x@a.test'' \<noteq> None"
  by (simp add: ev marksOf_def)

text \<open>
  C2, amended. When the fetch fails or gives no message, the cycle sends nothing and saves
  nothing (its only event is the log line of a failed fetch), leaves the file, the built-in
  functions, every mark of every chat and address, every tracked list, every other chat and
  every other address of the chat as they were, and changes nothing at all when the user and
  the seen entry of the address already exist; otherwise its only mutation is creating the
  empty user or the empty seen entry. A sweep over a tracked list that holds the address
  makes the same send attempts, as many saves and the same marks, and leaves the same tracked
  lists, as the cycles of the other addresses of the list make without it.
\<close>

theorem failed_fetch_no_effect:
  assumes "normalise (emailsResponse w a) = []"
  shows "history (checkEmailInbox w c a s)
           = history s @ (if emailsResponse w a = Failed then [Logged (FetchError a)] else [])
   \<and> dataFile (checkEmailInbox w c a s) = dataFile s
   \<and> builtinMarks (checkEmailInbox w c a s) = builtinMarks s
   \<and> (\<forall>c' a' i. markAt (userData (checkEmailInbox w c a s)) c' a' i = markAt (userData s) c' a' i)
   \<and> (\<forall>c'. tracked (userData (checkEmailInbox w c a s)) c' = tracked (userData s) c')
   \<and> (\<forall>c'. c' \<noteq> c \<longrightarrow> userData (checkEmailInbox w c a s) c' = userData s c')
   \<and> (\<forall>a'. a' \<noteq> a \<longrightarrow> marksOf (userData (checkEmailInbox w c a s)) c a' = marksOf (userData s) c a')
   \<and> (present c a s \<longrightarrow> userData (checkEmailInbox w c a s) = userData s)
   \<and> (\<forall>s0 xs ys. tracked (userData s0) c = xs @ a # ys \<longrightarrow>
         sameRun (pollAllEmailsForUser w c s0)
                 (foldl (\<lambda>st b. checkEmailInbox w c b st) (ensureUser c s0) (xs @ ys)))"
proof -
  obtain mails s1 where f: "fetchEmailsForAddress w a (ensureUser c s) = (mails, s1)"
    by (cases "fetchEmailsForAddress w a (ensureUser c s)")
  have mails: "mails = []"
    using fetchEmails_fst [of w a "ensureUser c s"] f assms by simp
  have s1: "s1 = (ensureUser c s)\<lparr>history := history (ensureUser c s)
                 @ (if emailsResponse w a = Failed then [Logged (FetchError a)] else [])\<rparr>"
    using fetchEmails_snd [of w a "ensureUser c s"] f by simp
  have h1: "history s1 = history s @ (if emailsResponse w a = Failed then [Logged (FetchError a)] else [])"
    and d1: "dataFile s1 = dataFile s" and u1: "userData s1 = userData (ensureUser c s)"
    and b1: "builtinMarks s1 = builtinMarks s"
    by (simp_all add: s1)
  obtain u where "userData s1 c = Some u" using ensureUser_Some [of c s] u1 by auto
  from ensureSeen_frame [OF this, of a] obtain s2 where
    s2: "ensureSeen c a s1 = Done s2"
      "untouched c a (userData s1) (userData s2)"
      "\<And>c' a' i. markAt (userData s2) c' a' i = markAt (userData s1) c' a' i"
      "present c a s1 \<longrightarrow> s2 = s1"
      "history s2 = history s1" "dataFile s2 = dataFile s1" "builtinMarks s2 = builtinMarks s1"
    by blast
  have r: "checkEmailInbox w c a s = s2"
    by (simp add: checkEmailInbox_def f s2(1) caught_def mails)
  have un: "untouched c a (userData s) (userData s2)"
    using untouched_ensureUser [of c a s] s2(2) u1 untouched_trans by metis
  have pr: "present c a s \<longrightarrow> userData s2 = userData s"
  proof
    assume p: "present c a s"
    then have "ensureUser c s = s" by (rule ensureUser_present)
    then have "userData s1 = userData s" using u1 by simp
    moreover from this p have "present c a s1" by (simp add: present_def)
    ultimately show "userData s2 = userData s" using s2(4) by simp
  qed
  have mk: "\<forall>c' a' i. markAt (userData s2) c' a' i = markAt (userData s) c' a' i"
    using s2(3) u1 by simp
  have sw: "sameRun (pollAllEmailsForUser w c s0)
                   (foldl (\<lambda>st b. checkEmailInbox w c b st) (ensureUser c s0) (xs @ ys))"
    if "tracked (userData s0) c = xs @ a # ys" for s0 xs ys
  proof -
    let ?cyc = "\<lambda>st b. checkEmailInbox w c b st"
    let ?m = "foldl ?cyc (ensureUser c s0) xs"
    have "alike (checkEmailInbox w c a ?m) ?m"
      using failed_fetch_alike [OF assms] .
    then have "alike (foldl ?cyc (checkEmailInbox w c a ?m) ys) (foldl ?cyc ?m ys)"
      by (rule alike_sweep)
    then show ?thesis using that by (simp add: pollAllEmailsForUser_sweep alike_sameRun)
  qed
  show ?thesis unfolding r using h1 d1 b1 s2(5,6,7) un pr mk sw by (simp add: untouched_def)
qed

theorem failed_fetch_no_effect_witness:
  "normalise (emailsResponse downEnv ''x@a.test'') = []
   \<and> history (checkEmailInbox downEnv 8 ''x@a.test'' syncedBot) = [Logged (FetchError ''x@a.test'')]
   \<and> dataFile (checkEmailInbox downEnv 8 ''x@a.test'' syncedBot) = dataFile syncedBot
   \<and> builtinMarks (checkEmailInbox downEnv 8 ''x@a.test'' syncedBot) = builtinMarks syncedBot
   \<and> markAt (userData (checkEmailInbox downEnv 8 ''x@a.test'' syncedBot)) 7 ''x@a.test'' ''0'' = Some True
   \<and> tracked (userData (checkEmailInbox downEnv 8 ''x@a.test'' syncedBot)) 8 = [''x@a.test'']
   \<and> (7::int) \<noteq> 8
   \<and> userData (checkEmailInbox downEnv 8 ''x@a.test'' syncedBot) 7 = userData syncedBot 7
   \<and> ''y@a.test'' \<noteq> ''x@a.test''
   \<and> marksOf (userData (checkEmailInbox downEnv 8 ''x@a.test'' syncedBot)) 8 ''y@a.test'' = None
   \<and> present 7 ''x@a.test'' syncedBot
   \<and> userData (checkEmailInbox downEnv 7 ''x@a.test'' syncedBot) = userData syncedBot
   \<and> normalise (emailsResponse exampleEnv ''y@a.test'') = []
   \<and> tracked (userData syncedBot) 7 = [''x@a.test''] @ ''y@a.test'' # []
   \<and> sameRun (pollAllEmailsForUser exampleEnv 7 syncedBot)
              (foldl (\<lambda>st b. checkEmailInbox exampleEnv 7 b st) (ensureUser 7 syncedBot) ([''x@a.test''] @ []))"
proof -
  have e: "normalise (emailsResponse downEnv ''x@a.test'') = []"
    by (simp add: downEnv_def normalise_def)
  have p: "present 7 ''x@a.test'' syncedBot"
    by (simp add: present_def syncedBot_def exampleStore_def)
  have e': "normalise (emailsResponse exampleEnv ''y@a.test'') = []"
    by (simp add: exampleEnv_def normalise_def)
  have tr: "tracked (userData syncedBot) 7 = [''x@a.test''] @ ''y@a.test'' # []"
    by (simp add: tracked_def syncedBot_def exampleStore_def)
  note at8 = failed_fetch_no_effect [OF e, of 8 syncedBot]
  note at7 = failed_fetch_no_effect [OF e, of 7 syncedBot]
  from failed_fetch_no_effect [OF e', of 7 syncedBot] tr
  have sweep: "sameRun (pollAllEmailsForUser exampleEnv 7 syncedBot)
      (foldl (\<lambda>st b. checkEmailInbox exampleEnv 7 b st) (ensureUser 7 syncedBot) ([''x@a.test''] @ []))"
    by blast
  from at7 p have same: "userData (checkEmailInbox downEnv 7 ''x@a.test'' syncedBot) = userData syncedBot"
    by blast
  have local: "history (checkEmailInbox downEnv 8 ''x@a.test'' syncedBot) = [Logged (FetchError ''x@a.test'')]
      \<and> dataFile (checkEmailInbox downEnv 8 ''x@a.test'' syncedBot) = dataFile syncedBot
      \<and> builtinMarks (checkEmailInbox downEnv 8 ''x@a.test'' syncedBot) = builtinMarks syncedBot
      \<and> markAt (userData (checkEmailInbox downEnv 8 ''x@a.test'' syncedBot)) 7 ''x@a.test'' ''0'' = Some True
      \<and> tracked (userData (checkEmailInbox downEnv 8 ''x@a.test'' syncedBot)) 8 = [''x@a.test'']
      \<and> userData (checkEmailInbox downEnv 8 ''x@a.test'' syncedBot) 7 = userData syncedBot 7
      \<and> marksOf (userData (checkEmailInbox downEnv 8 ''x@a.test'' syncedBot)) 8 ''y@a.test'' = None"
    using at8
    by (simp add: downEnv_def exampleEnv_def syncedBot_def exampleStore_def markAt_def marksOf_def tracked_def)
  show ?thesis using e e' p tr sweep same local by simp
qed




text \<open>
  C4 fails in backup.js and bot2.js. With chat 7 tracking two addresses, importing one
  tracked and one new address adds one address in all three files; bot.js reports 1
  (and the new total 3), backup.js and bot2.js report 2, the count supplied.
\<close>

theorem import_reports_supplied_count:
  "completed (onImport exampleEnv 7 ''/import x@a.test,z@a.test'' syncedBot)
   \<and> tracked (userData (stateOf (onImport exampleEnv 7 ''/import x@a.test,z@a.test'' syncedBot))) 7
       = [''x@a.test'', ''y@a.test'', ''z@a.test'']
   \<and> last (history (stateOf (onImport exampleEnv 7 ''/import x@a.test,z@a.test'' syncedBot)))
       = Sent 7 (Imported 1 3) True
   \<and> completed (backup_onImport exampleEnv 7 ''x@a.test,z@a.test'' syncedBot)
   \<and> tracked (userData (stateOf (backup_onImport exampleEnv 7 ''x@a.test,z@a.test'' syncedBot))) 7
       = [''x@a.test'', ''y@a.test'', ''z@a.test'']
   \<and> last (history (stateOf (backup_onImport exampleEnv 7 ''x@a.test,z@a.test'' syncedBot)))
       = Sent 7 (ImportedCount 2) True
   \<and> completed (bot2_onImport exampleEnv 7 ''x@a.test,z@a.test'' syncedBot)
   \<and> tracked (userData (stateOf (bot2_onImport exampleEnv 7 ''x@a.test,z@a.test'' syncedBot))) 7
       = [''x@a.test'', ''y@a.test'', ''z@a.test'']
   \<and> last (history (stateOf (bot2_onImport exampleEnv 7 ''x@a.test,z@a.test'' syncedBot)))
       = Sent 7 (ImportedCount 2) True"
  by (simp add: onImport_def backup_onImport_def bot2_onImport_def hd_ev)

text \<open>
  C5 fails in bot2.js. Deleting a tracked address whose message 0 was seen removes the
  address from the list in all three files; bot.js and backup.js also delete its seen entry,
  bot2.js keeps it, so message 0 still counts as seen.
\<close>

theorem bot2_delete_keeps_seen:
  "completed (onDelete exampleEnv 7 ''/delete x@a.test'' syncedBot)
   \<and> tracked (userData (stateOf (onDelete exampleEnv 7 ''/delete x@a.test'' syncedBot))) 7 = [''y@a.test'']
   \<and> marksOf (userData (stateOf (onDelete exampleEnv 7 ''/delete x@a.test'' syncedBot))) 7 ''x@a.test'' = None
   \<and> completed (backup_onDelete exampleEnv 7 ''x@a.test'' syncedBot)
   \<and> marksOf (userData (stateOf (backup_onDelete exampleEnv 7 ''x@a.test'' syncedBot))) 7 ''x@a.test'' = None
   \<and> completed (bot2_onDelete exampleEnv 7 ''x@a.test'' syncedBot)
   \<and> tracked (userData (stateOf (bot2_onDelete exampleEnv 7 ''x@a.test'' syncedBot))) 7 = [''y@a.test'']
   \<and> seenIn (userData (stateOf (bot2_onDelete exampleEnv 7 ''x@a.test'' syncedBot))) 7 ''x@a.test'' ''0''"
  by (simp add: onDelete_def backup_onDelete_def bot2_onDelete_def seenIn_def truthy_def hd_ev)

text \<open>
  C6, as stated, fails when the first draw renders with fewer than eight digits: when
  \<^verbatim>\<open>Math.random()\<close> returns 0.5, rendered \<^verbatim>\<open>0.i\<close>, \<^verbatim>\<open>/new\<close> for a chat with no tracked address
  appends an address whose local part is the single character \<^verbatim>\<open>i\<close>.
\<close>

theorem short_local_part_counterexample:
  "normalise (domainsResponse halfEnv) = [''a.test'', ''b.test'']
   \<and> rendering36 (random36 halfEnv)
   \<and> tracked (userData freshBot) 9 = []
   \<and> completed (onNew halfEnv 9 freshBot)
   \<and> tracked (userData (stateOf (onNew halfEnv 9 freshBot))) 9 = [''i@b.test'']
   \<and> length ''i'' \<noteq> (8::nat)"
  by (simp add: onNew_def hd_ev rendering36_def isDigit36_def)

text \<open>
  C6, amended. When the provider returns a non-empty domain list, \<^verbatim>\<open>/new\<close> appends exactly one
  address to the tracked list of the chat, whose length grows by 1: the local part is
  \<^verbatim>\<open>substring(2, 10)\<close> of the rendering of the first draw, at most 8 characters, each a digit of
  base 36, and exactly 8 when the rendering has at least 8 digits after \<^verbatim>\<open>0.\<close>; then \<^verbatim>\<open>@\<close> and
  one of the returned domains.
\<close>

theorem new_address_shape:
  assumes "normalise (domainsResponse w) \<noteq> []"
    and "0 \<le> randomUnit w" "randomUnit w < 1" "rendering36 (random36 w)"
  shows "completed (onNew w c s)
     \<and> (\<exists>local d. tracked (userData (stateOf (onNew w c s))) c = tracked (userData s) c @ [local @ ''@'' @ d]
           \<and> local = take 8 (drop 2 (random36 w))
           \<and> length local \<le> 8 \<and> list_all isDigit36 local
           \<and> (10 \<le> length (random36 w) \<longrightarrow> length local = 8)
           \<and> d \<in> set (normalise (domainsResponse w)))
     \<and> length (tracked (userData (stateOf (onNew w c s))) c) = length (tracked (userData s) c) + 1"
proof -
  from onNew_appends [OF assms(1-3), of c s] obtain s' d where
    1: "onNew w c s = Done s'" "d \<in> set (normalise (domainsResponse w))"
      "tracked (userData s') c = tracked (userData s) c @ [take 8 (drop 2 (random36 w)) @ ''@'' @ d]"
    by blast
  have "list_all isDigit36 (drop 2 (random36 w))"
    using assms(4) by (auto simp: rendering36_def)
  then have "list_all isDigit36 (take 8 (drop 2 (random36 w)))"
    by (auto simp: list_all_iff dest: in_set_takeD)
  moreover have "10 \<le> length (random36 w) \<longrightarrow> length (take 8 (drop 2 (random36 w))) = 8"
    by simp
  ultimately show ?thesis using 1 by simp
qed

theorem new_address_shape_witness:
  "normalise (domainsResponse exampleEnv) \<noteq> []
   \<and> 0 \<le> randomUnit exampleEnv \<and> randomUnit exampleEnv < 1 \<and> rendering36 (random36 exampleEnv)
   \<and> 10 \<le> length (random36 exampleEnv)
   \<and> completed (onNew exampleEnv 9 freshBot)
   \<and> tracked (userData freshBot) 9 = []
   \<and> tracked (userData (stateOf (onNew exampleEnv 9 freshBot))) 9 = [''k3j9x2m1@b.test'']
   \<and> length (tracked (userData (stateOf (onNew exampleEnv 9 freshBot))) 9) = 1"
proof -
  have h: "normalise (domainsResponse exampleEnv) \<noteq> []" "0 \<le> randomUnit exampleEnv"
    "randomUnit exampleEnv < 1" "rendering36 (random36 exampleEnv)"
    by (simp_all add: exampleEnv_def normalise_def rendering36_def isDigit36_def)
  have l: "10 \<le> length (random36 exampleEnv)" and t0: "tracked (userData freshBot) 9 = []"
    by (simp_all add: exampleEnv_def freshBot_def tracked_def)
  from new_address_shape [OF h, of 9 freshBot] l t0 obtain local d where
    1: "completed (onNew exampleEnv 9 freshBot)"
       "tracked (userData (stateOf (onNew exampleEnv 9 freshBot))) 9 = [local @ ''@'' @ d]"
       "local = take 8 (drop 2 (random36 exampleEnv))"
       "length (tracked (userData (stateOf (onNew exampleEnv 9 freshBot))) 9) = 1"
    by auto
  have "tracked (userData (stateOf (onNew exampleEnv 9 freshBot))) 9 = [''k3j9x2m1@b.test'']"
    by (simp add: onNew_def hd_ev)
  then show ?thesis using h l t0 1(1,4) by simp
qed

text \<open>
  C7 fails for \<^verbatim>\<open>/new\<close>, which pushes the generated address without the \<^verbatim>\<open>includes\<close> test of
  \<^verbatim>\<open>/add\<close> and \<^verbatim>\<open>/import\<close>: after \<^verbatim>\<open>/add abcdefgh@a.test\<close> the list has no duplicate, and a
  \<^verbatim>\<open>/new\<close> that generates the same address leaves it twice in the list.
\<close>

theorem new_address_duplicates:
  "completed (onAdd exampleEnv 7 ''/add abcdefgh@a.test'' freshBot)
   \<and> distinct (tracked (userData (stateOf (onAdd exampleEnv 7 ''/add abcdefgh@a.test'' freshBot))) 7)
   \<and> completed (onNew collidingEnv 7 (stateOf (onAdd exampleEnv 7 ''/add abcdefgh@a.test'' freshBot)))
   \<and> tracked (userData (stateOf (onNew collidingEnv 7
         (stateOf (onAdd exampleEnv 7 ''/add abcdefgh@a.test'' freshBot))))) 7
       = [''abcdefgh@a.test'', ''abcdefgh@a.test'']"
  by (simp add: onNew_def onAdd_def hd_ev)

text \<open>
  C8 fails in bot2.js. With two new messages and a first send that fails, the poller of
  bot2.js marks the first message, attempts its notification, and aborts in its \<^verbatim>\<open>catch\<close>:
  the second message is not notified in this cycle. The poller of bot.js, on the same input,
  goes on and notifies the second message.
\<close>

theorem bot2_failed_send_aborts:
  "history (bot2_checkEmailInbox flakyEnv 7 ''x@a.test'' freshBot)
     = [Marked 7 ''x@a.test'' ''1'', Sent 7 (NewEmail ''x@a.test'' mailA) False, Logged (CheckError ''x@a.test'')]
   \<and> notified 7 ''x@a.test'' ''2'' (bot2_checkEmailInbox flakyEnv 7 ''x@a.test'' freshBot) = 0
   \<and> notified 7 ''x@a.test'' ''2'' (checkEmailInbox flakyEnv 7 ''x@a.test'' freshBot) = 1"
  by (simp add: bot2_checkEmailInbox_def bot2_processMail_def bot2_notifyNew_def bot2_iterable_def
      sendMessage_def notified_def ev)







end
